theory Spec2Isabelle
  imports Main "HOL-Library.Word"
begin

section \<open>The Campaign contract\<close>

text \<open>
  A shallow embedding of the Solidity contract \<open>Campaign\<close> (compiler 0.8.26, so every
  \<open>+\<close>, \<open>+=\<close> and \<open>-\<close> on \<open>uint256\<close> is checked and reverts with a panic on
  overflow). Storage is a record, every external function is a HOL function from the
  state before the call to either the revert reason or the state after the call together
  with the events emitted during it. A revert discards every write of the call, so the
  error branch carries no state: the state after a reverted call is the state before it
  (\<open>step\<close> below).

  What the contract does not contain is a parameter of the model (\<open>env\<close>): the ERC20
  token at \<open>tokenAddress\<close>, the receivers of plain value calls, and the contract's own
  address. An external call hands control to its callee, which may call back into the
  contract before it returns. While a \<open>nonReentrant\<close> function runs, the guard is
  closed: a call back into a guarded function reverts, a call back into one of the
  four functions without the guard (\<open>changeStateToLive\<close>, \<open>changeStateToEnded\<close>,
  \<open>setAllocations\<close>, \<open>updateFeeRecipient\<close>) runs on the storage as it is at that moment.
  Every function that makes an external call is guarded, and the unguarded functions
  make none, so calls back do not nest. \<open>balanceOf\<close> is a static call: nothing can be
  written during it.

  Calls of the functions that are not \<open>payable\<close> carry no value. Native currency forced
  onto the contract reaches it between calls (\<open>Outside\<close> below). Gas is not modelled.
\<close>

type_synonym address = "160 word"
type_synonym uint256 = "256 word"

datatype State = Graduating | Live | Rescue | Ended

datatype event =
    Deposit address uint256 uint256
  | StateChanged State
  | FundsRescued address uint256
  | AllocationsSet address uint256
  | TokensClaimed address uint256
  | RemainingTokensRescued uint256

text \<open>The revert reasons, one per \<open>require\<close> message of the source.\<close>

datatype error =
    OnlyOwner                  \<comment> \<open>"Only owner can call this"\<close>
  | InvalidState               \<comment> \<open>"Invalid state for this action"\<close>
  | DepositsNotAllowed         \<comment> \<open>"Deposits are not allowed in the current state"\<close>
  | IncorrectFee               \<comment> \<open>"Incorrect ETH fee sent"\<close>
  | FeeTransferFailed          \<comment> \<open>"Failed to transfer ETH fee"\<close>
  | TokenCallFailed            \<comment> \<open>SafeERC20 reverts: the token call failed or returned false\<close>
  | ArithmeticOverflow         \<comment> \<open>Panic(0x11) of checked arithmetic\<close>
  | MismatchedLengths          \<comment> \<open>"Mismatched input lengths"\<close>
  | AllocationExceedsDeposits  \<comment> \<open>"Allocation exceeds deposits"\<close>
  | NoTokensAllocated          \<comment> \<open>"No tokens allocated"\<close>
  | AlreadyClaimed             \<comment> \<open>"Tokens already claimed"\<close>
  | NoRemainingTokens          \<comment> \<open>"No remaining tokens to rescue"\<close>
  | InvalidFeeRecipient        \<comment> \<open>"Invalid fee recipient address"\<close>
  | NoEthToWithdraw            \<comment> \<open>"No ETH to withdraw"\<close>
  | WithdrawFailed             \<comment> \<open>"Failed to withdraw ETH"\<close>
  | ReentrantCall              \<comment> \<open>"ReentrancyGuard: reentrant call"\<close>

record campaign =
  title :: string
  tokenAddress :: address
  totalDeposits :: uint256
  owner :: address
  currentState :: State
  feeRecipient :: address
  deposits :: "address \<Rightarrow> uint256"
  allocations :: "address \<Rightarrow> uint256"
  hasClaimed :: "address \<Rightarrow> bool"
  depositors :: "address list"

text \<open>
  The contract's storage, the token's state and the contract's native balance
  (\<open>address(this).balance\<close>).
\<close>

record 't world =
  ledger :: campaign
  tokens :: 't
  ether :: uint256

text \<open>
  One constructor per state-changing external function; the first argument is
  \<open>msg.sender\<close>, for \<open>deposit\<close> the second is \<open>msg.value\<close>.
\<close>

datatype call =
    CallDeposit address uint256 uint256
  | CallChangeStateToLive address
  | CallChangeStateToRescue address
  | CallChangeStateToEnded address
  | CallSetAllocations address "address list" "uint256 list"
  | CallClaimTokens address
  | CallRescueRemainingTokens address
  | CallUpdateFeeRecipient address address
  | CallWithdrawEther address

text \<open>
  The surroundings of the contract. \<open>'t\<close> is the state of the token contract. An
  external call is answered with \<open>None\<close> where it fails (the plain call returns
  \<open>sent = false\<close>, SafeERC20 reverts), or with the calls back into the contract that
  were made before it returned, in their order, and the token state it leaves. The
  answer may depend on everything the callee can read: the world at the moment of the
  call. \<open>sendValue env to v\<close> is \<open>to.call{value: v}("")\<close>;
  \<open>safeTransferFrom env caller from to amount\<close> and
  \<open>safeTransfer env caller to amount\<close> are the SafeERC20 calls made by \<open>caller\<close>.
\<close>

type_synonym 't reply = "(call list \<times> 't) option"

record 't env =
  this :: address
  sendValue :: "address \<Rightarrow> uint256 \<Rightarrow> 't world \<Rightarrow> 't reply"
  safeTransferFrom :: "address \<Rightarrow> address \<Rightarrow> address \<Rightarrow> uint256 \<Rightarrow> 't world \<Rightarrow> 't reply"
  safeTransfer :: "address \<Rightarrow> address \<Rightarrow> uint256 \<Rightarrow> 't world \<Rightarrow> 't reply"
  balanceOf :: "address \<Rightarrow> 't \<Rightarrow> uint256 option"

definition DEPOSIT_FEE :: uint256 where
  "DEPOSIT_FEE = 1000000000000000"

text \<open>Checked addition of Solidity 0.8: \<open>None\<close> is the panic.\<close>

definition checked_add :: "uint256 \<Rightarrow> uint256 \<Rightarrow> uint256 option" where
  "checked_add a b = (if unat a + unat b < 2 ^ 256 then Some (a + b) else None)"

definition constructor :: "string \<Rightarrow> address \<Rightarrow> address \<Rightarrow> address \<Rightarrow> error + campaign" where
  "constructor t_title t_tokenAddress t_owner t_feeRecipient =
     (if t_feeRecipient = 0 then Inl InvalidFeeRecipient
      else Inr \<lparr>title = t_title, tokenAddress = t_tokenAddress, totalDeposits = 0,
                owner = t_owner, currentState = Graduating, feeRecipient = t_feeRecipient,
                deposits = (\<lambda>_. 0), allocations = (\<lambda>_. 0), hasClaimed = (\<lambda>_. False),
                depositors = []\<rparr>)"

subsection \<open>The functions without the reentrancy guard\<close>

definition changeStateToLive ::
  "address \<Rightarrow> 't world \<Rightarrow> error + ('t world \<times> event list)" where
  "changeStateToLive msg_sender w =
     (let c = ledger w in
      if msg_sender \<noteq> owner c then Inl OnlyOwner
      else if currentState c \<noteq> Graduating then Inl InvalidState
      else Inr (w\<lparr>ledger := c\<lparr>currentState := Live\<rparr>\<rparr>, [StateChanged Live]))"

definition changeStateToEnded ::
  "address \<Rightarrow> 't world \<Rightarrow> error + ('t world \<times> event list)" where
  "changeStateToEnded msg_sender w =
     (let c = ledger w in
      if msg_sender \<noteq> owner c then Inl OnlyOwner
      else if currentState c \<noteq> Live then Inl InvalidState
      else Inr (w\<lparr>ledger := c\<lparr>currentState := Ended\<rparr>\<rparr>, [StateChanged Ended]))"

text \<open>
  The loop of \<open>setAllocations\<close> over the pairs \<open>(users[i], amounts[i])\<close>: each pair
  overwrites the allocation of its user and adds its amount to \<open>totalAllocated\<close>,
  which starts at 0 in every call.
\<close>

fun allocation_loop ::
  "(address \<times> uint256) list \<Rightarrow> (address \<Rightarrow> uint256) \<Rightarrow> uint256 \<Rightarrow> event list
     \<Rightarrow> error + ((address \<Rightarrow> uint256) \<times> uint256 \<times> event list)" where
  "allocation_loop [] allocs totalAllocated evs = Inr (allocs, totalAllocated, evs)"
| "allocation_loop ((user, amount) # rest) allocs totalAllocated evs =
     (case checked_add totalAllocated amount of
        None \<Rightarrow> Inl ArithmeticOverflow
      | Some total' \<Rightarrow>
          allocation_loop rest (allocs(user := amount)) total'
            (evs @ [AllocationsSet user amount]))"

definition setAllocations ::
  "address \<Rightarrow> address list \<Rightarrow> uint256 list \<Rightarrow> 't world \<Rightarrow> error + ('t world \<times> event list)" where
  "setAllocations msg_sender users amounts w =
     (let c = ledger w in
      if msg_sender \<noteq> owner c then Inl OnlyOwner
      else if currentState c \<noteq> Ended then Inl InvalidState
      else if length users \<noteq> length amounts then Inl MismatchedLengths
      else
        (case allocation_loop (zip users amounts) (allocations c) 0 [] of
           Inl e \<Rightarrow> Inl e
         | Inr (allocs', totalAllocated, evs) \<Rightarrow>
             if totalAllocated \<le> totalDeposits c
             then Inr (w\<lparr>ledger := c\<lparr>allocations := allocs'\<rparr>\<rparr>, evs)
             else Inl AllocationExceedsDeposits))"

definition updateFeeRecipient ::
  "address \<Rightarrow> address \<Rightarrow> 't world \<Rightarrow> error + ('t world \<times> event list)" where
  "updateFeeRecipient msg_sender new_feeRecipient w =
     (let c = ledger w in
      if msg_sender \<noteq> owner c then Inl OnlyOwner
      else if new_feeRecipient = 0 then Inl InvalidFeeRecipient
      else Inr (w\<lparr>ledger := c\<lparr>feeRecipient := new_feeRecipient\<rparr>\<rparr>, []))"

subsection \<open>Calls back into the contract\<close>

text \<open>
  A call that arrives while a guarded function is running. The modifiers run in the
  order in which the source lists them, \<open>nonReentrant\<close> last where there are others, so
  a guarded function reverts in any case; the four unguarded functions run as usual.
\<close>

fun reenter :: "call \<Rightarrow> 't world \<Rightarrow> error + ('t world \<times> event list)" where
  "reenter (CallDeposit s v amount) w = Inl ReentrantCall"
| "reenter (CallChangeStateToLive s) w = changeStateToLive s w"
| "reenter (CallChangeStateToRescue s) w =
     (if s \<noteq> owner (ledger w) then Inl OnlyOwner
      else if currentState (ledger w) \<noteq> Graduating then Inl InvalidState
      else Inl ReentrantCall)"
| "reenter (CallChangeStateToEnded s) w = changeStateToEnded s w"
| "reenter (CallSetAllocations s users amounts) w = setAllocations s users amounts w"
| "reenter (CallClaimTokens s) w =
     (if currentState (ledger w) \<noteq> Ended then Inl InvalidState else Inl ReentrantCall)"
| "reenter (CallRescueRemainingTokens s) w =
     (if s \<noteq> owner (ledger w) then Inl OnlyOwner
      else if currentState (ledger w) \<noteq> Ended then Inl InvalidState
      else Inl ReentrantCall)"
| "reenter (CallUpdateFeeRecipient s r) w = updateFeeRecipient s r w"
| "reenter (CallWithdrawEther s) w =
     (if s \<noteq> owner (ledger w) then Inl OnlyOwner else Inl ReentrantCall)"

text \<open>
  The calls back of one external call, in their order: each commits or reverts on its
  own, the callee goes on either way. The events of those that commit are appended.
\<close>

fun callbacks :: "call list \<Rightarrow> 't world \<Rightarrow> event list \<Rightarrow> 't world \<times> event list" where
  "callbacks [] w evs = (w, evs)"
| "callbacks (c # cs) w evs =
     (case reenter c w of
        Inl e \<Rightarrow> callbacks cs w evs
      | Inr (w', evs') \<Rightarrow> callbacks cs w' (evs @ evs'))"

text \<open>The world when a successful external call, made in \<open>w\<close>, has returned.\<close>

definition after_call :: "call list \<times> 't \<Rightarrow> 't world \<Rightarrow> 't world \<times> event list" where
  "after_call answer w =
     (case callbacks (fst answer) w [] of (w', evs) \<Rightarrow> (w'\<lparr>tokens := snd answer\<rparr>, evs))"

subsection \<open>The guarded functions\<close>

text \<open>
  \<open>deposit\<close>: the fee arrives with the call and is forwarded in full, so the native
  balance of the contract is the same after a successful call. The storage is read
  and written after the two external calls, as in the source.
\<close>

definition deposit ::
  "'t env \<Rightarrow> address \<Rightarrow> uint256 \<Rightarrow> uint256 \<Rightarrow> 't world \<Rightarrow> error + ('t world \<times> event list)" where
  "deposit env msg_sender msg_value amount w =
     (let c = ledger w in
      if \<not> (currentState c = Graduating \<or> currentState c = Live) then Inl DepositsNotAllowed
      else if msg_value \<noteq> DEPOSIT_FEE then Inl IncorrectFee
      else
        (case sendValue env (feeRecipient c) msg_value w of
           None \<Rightarrow> Inl FeeTransferFailed
         | Some sent \<Rightarrow>
             (case after_call sent w of (w1, evs1) \<Rightarrow>
                (case safeTransferFrom env (this env) msg_sender (this env) amount w1 of
                   None \<Rightarrow> Inl TokenCallFailed
                 | Some pulled \<Rightarrow>
                     (case after_call pulled w1 of (w2, evs2) \<Rightarrow>
                        let c2 = ledger w2;
                            ds = (if deposits c2 msg_sender = 0
                                  then depositors c2 @ [msg_sender] else depositors c2)
                        in
                          (case checked_add (deposits c2 msg_sender) amount of
                             None \<Rightarrow> Inl ArithmeticOverflow
                           | Some d' \<Rightarrow>
                               (case checked_add (totalDeposits c2) amount of
                                  None \<Rightarrow> Inl ArithmeticOverflow
                                | Some td' \<Rightarrow>
                                    Inr (w2\<lparr>ledger := c2\<lparr>depositors := ds,
                                              deposits := (deposits c2)(msg_sender := d'),
                                              totalDeposits := td'\<rparr>\<rparr>,
                                         evs1 @ evs2
                                           @ [Deposit msg_sender amount msg_value]))))))))"

text \<open>
  The refund loop of \<open>changeStateToRescue\<close> over the depositor list, from the left:
  the deposit is set to zero before its transfer, the world and the events are
  threaded through, the first failing transfer reverts the call. The source reads
  \<open>depositors[i]\<close> from storage in every round; no function without the guard writes
  the list, so the rounds see the list as it was at entry.
\<close>

fun refund_loop ::
  "'t env \<Rightarrow> address list \<Rightarrow> 't world \<Rightarrow> event list \<Rightarrow> error + ('t world \<times> event list)" where
  "refund_loop env [] w evs = Inr (w, evs)"
| "refund_loop env (depositor # rest) w evs =
     (let depositAmount = deposits (ledger w) depositor in
      if depositAmount > 0 then
        (let w0 = w\<lparr>ledger := (ledger w)\<lparr>deposits := (deposits (ledger w))(depositor := 0)\<rparr>\<rparr>
         in
           (case safeTransfer env (this env) depositor depositAmount w0 of
              None \<Rightarrow> Inl TokenCallFailed
            | Some sent \<Rightarrow>
                (case after_call sent w0 of (w1, evs1) \<Rightarrow>
                   refund_loop env rest w1
                     (evs @ evs1 @ [FundsRescued depositor depositAmount]))))
      else refund_loop env rest w evs)"

text \<open>\<open>totalDeposits\<close> and the state are written after the loop, onto the storage as the
  loop and the calls back during its transfers have left it.\<close>

definition changeStateToRescue ::
  "'t env \<Rightarrow> address \<Rightarrow> 't world \<Rightarrow> error + ('t world \<times> event list)" where
  "changeStateToRescue env msg_sender w =
     (let c = ledger w in
      if msg_sender \<noteq> owner c then Inl OnlyOwner
      else if currentState c \<noteq> Graduating then Inl InvalidState
      else
        (case refund_loop env (depositors c) w [] of
           Inl e \<Rightarrow> Inl e
         | Inr (w1, evs) \<Rightarrow>
             Inr (w1\<lparr>ledger := (ledger w1)\<lparr>totalDeposits := 0, currentState := Rescue\<rparr>\<rparr>,
                  evs @ [StateChanged Rescue])))"

text \<open>\<open>claimTokens\<close> sets the claim flag before the transfer.\<close>

definition claimTokens ::
  "'t env \<Rightarrow> address \<Rightarrow> 't world \<Rightarrow> error + ('t world \<times> event list)" where
  "claimTokens env msg_sender w =
     (let c = ledger w in
      if currentState c \<noteq> Ended then Inl InvalidState
      else
        let allocation = allocations c msg_sender in
        if \<not> allocation > 0 then Inl NoTokensAllocated
        else if hasClaimed c msg_sender then Inl AlreadyClaimed
        else
          let w0 = w\<lparr>ledger := c\<lparr>hasClaimed := (hasClaimed c)(msg_sender := True)\<rparr>\<rparr> in
          (case safeTransfer env (this env) msg_sender allocation w0 of
             None \<Rightarrow> Inl TokenCallFailed
           | Some sent \<Rightarrow>
               (case after_call sent w0 of (w1, evs1) \<Rightarrow>
                  Inr (w1, evs1 @ [TokensClaimed msg_sender allocation]))))"

text \<open>The loop of \<open>rescueRemainingTokens\<close>: one summand per entry of the depositor list.\<close>

fun allocated_loop :: "address list \<Rightarrow> (address \<Rightarrow> uint256) \<Rightarrow> uint256 \<Rightarrow> uint256 option" where
  "allocated_loop [] allocs totalAllocated = Some totalAllocated"
| "allocated_loop (d # rest) allocs totalAllocated =
     (case checked_add totalAllocated (allocs d) of
        None \<Rightarrow> None
      | Some total' \<Rightarrow> allocated_loop rest allocs total')"

definition rescueRemainingTokens ::
  "'t env \<Rightarrow> address \<Rightarrow> 't world \<Rightarrow> error + ('t world \<times> event list)" where
  "rescueRemainingTokens env msg_sender w =
     (let c = ledger w in
      if msg_sender \<noteq> owner c then Inl OnlyOwner
      else if currentState c \<noteq> Ended then Inl InvalidState
      else
        (case allocated_loop (depositors c) (allocations c) 0 of
           None \<Rightarrow> Inl ArithmeticOverflow
         | Some totalAllocated \<Rightarrow>
             (case balanceOf env (this env) (tokens w) of
                None \<Rightarrow> Inl TokenCallFailed
              | Some contractBalance \<Rightarrow>
                  if \<not> contractBalance > totalAllocated then Inl NoRemainingTokens
                  else
                    let remaining = contractBalance - totalAllocated in
                    if \<not> remaining > 0 then Inl NoRemainingTokens
                    else
                      (case safeTransfer env (this env) (owner c) remaining w of
                         None \<Rightarrow> Inl TokenCallFailed
                       | Some sent \<Rightarrow>
                           (case after_call sent w of (w1, evs1) \<Rightarrow>
                              Inr (w1, evs1 @ [RemainingTokensRescued remaining]))))))"

text \<open>\<open>withdrawEther\<close>: while the owner holds control, the balance has left the contract.\<close>

definition withdrawEther ::
  "'t env \<Rightarrow> address \<Rightarrow> 't world \<Rightarrow> error + ('t world \<times> event list)" where
  "withdrawEther env msg_sender w =
     (let c = ledger w in
      if msg_sender \<noteq> owner c then Inl OnlyOwner
      else
        let contractBalance = ether w in
        if \<not> contractBalance > 0 then Inl NoEthToWithdraw
        else
          (case sendValue env (owner c) contractBalance (w\<lparr>ether := 0\<rparr>) of
             None \<Rightarrow> Inl WithdrawFailed
           | Some sent \<Rightarrow>
               (case after_call sent (w\<lparr>ether := 0\<rparr>) of (w1, evs1) \<Rightarrow> Inr (w1, evs1))))"

subsection \<open>Calls and runs\<close>

text \<open>A call from outside, with the guard open.\<close>

fun exec :: "'t env \<Rightarrow> call \<Rightarrow> 't world \<Rightarrow> error + ('t world \<times> event list)" where
  "exec env (CallDeposit s v amount) w = deposit env s v amount w"
| "exec env (CallChangeStateToLive s) w = changeStateToLive s w"
| "exec env (CallChangeStateToRescue s) w = changeStateToRescue env s w"
| "exec env (CallChangeStateToEnded s) w = changeStateToEnded s w"
| "exec env (CallSetAllocations s users amounts) w = setAllocations s users amounts w"
| "exec env (CallClaimTokens s) w = claimTokens env s w"
| "exec env (CallRescueRemainingTokens s) w = rescueRemainingTokens env s w"
| "exec env (CallUpdateFeeRecipient s r) w = updateFeeRecipient s r w"
| "exec env (CallWithdrawEther s) w = withdrawEther env s w"

text \<open>
  What happens between the contract's own calls: a call of the contract, which either
  commits or reverts and then leaves everything as it was, or anything else on the
  chain, which can change the token's state and the contract's native balance but not
  the contract's storage.
\<close>

datatype 't action = Call call | Outside 't uint256

fun step :: "'t env \<Rightarrow> 't action \<Rightarrow> 't world \<Rightarrow> 't world" where
  "step env (Call c) w = (case exec env c w of Inl e \<Rightarrow> w | Inr (w', evs) \<Rightarrow> w')"
| "step env (Outside t b) w = w\<lparr>tokens := t, ether := b\<rparr>"

fun run :: "'t env \<Rightarrow> 't action list \<Rightarrow> 't world \<Rightarrow> 't world" where
  "run env [] w = w"
| "run env (a # as) w = run env as (step env a w)"

text \<open>A world right after deployment.\<close>

definition deployed :: "campaign \<Rightarrow> 't \<Rightarrow> uint256 \<Rightarrow> 't world" where
  "deployed c t b = \<lparr>ledger = c, tokens = t, ether = b\<rparr>"

subsection \<open>A standard token and concrete campaigns\<close>

text \<open>
  Modelled from the spec: the external fungible-asset transfer primitive (pull from an
  account, push to an account) that may fail independently. The token contract itself
  is not part of the repository; this instance is an ERC20 ledger with balances and
  allowances, whose transfers fail on the zero address, on an insufficient balance and
  on an insufficient allowance, and succeed otherwise (also for the amount 0). It is
  used only to run the contract on concrete calls; the general theorems below hold for
  every \<open>env\<close>.
\<close>

record erc20 =
  balances :: "address \<Rightarrow> uint256"
  allowances :: "address \<Rightarrow> address \<Rightarrow> uint256"

definition erc20_transfer :: "address \<Rightarrow> address \<Rightarrow> uint256 \<Rightarrow> erc20 \<Rightarrow> erc20 option" where
  "erc20_transfer from to amount t =
     (if from = 0 \<or> to = 0 then None
      else if balances t from < amount then None
      else
        let b1 = (balances t)(from := balances t from - amount)
        in Some (t\<lparr>balances := b1(to := b1 to + amount)\<rparr>))"

definition erc20_transferFrom ::
  "address \<Rightarrow> address \<Rightarrow> address \<Rightarrow> uint256 \<Rightarrow> erc20 \<Rightarrow> erc20 option" where
  "erc20_transferFrom caller from to amount t =
     (if allowances t from caller < amount then None
      else
        erc20_transfer from to amount
          (t\<lparr>allowances := (allowances t)
                (from := (allowances t from)(caller := allowances t from caller - amount))\<rparr>))"

abbreviation alice :: address where "alice \<equiv> 161"
abbreviation bob :: address where "bob \<equiv> 176"
abbreviation boss :: address where "boss \<equiv> 11"
abbreviation collector :: address where "collector \<equiv> 254"
abbreviation token_addr :: address where "token_addr \<equiv> 112"
abbreviation campaign_addr :: address where "campaign_addr \<equiv> 192"

text \<open>Surroundings in which nobody calls back: every value call is accepted, the token is
  the standard one.\<close>

definition std_env :: "erc20 env" where
  "std_env =
     \<lparr>this = campaign_addr,
      sendValue = (\<lambda>to v w. Some ([], tokens w)),
      safeTransferFrom = (\<lambda>caller from to amount w.
         map_option (Pair []) (erc20_transferFrom caller from to amount (tokens w))),
      safeTransfer = (\<lambda>caller to amount w.
         map_option (Pair []) (erc20_transfer caller to amount (tokens w))),
      balanceOf = (\<lambda>a t. Some (balances t a))\<rparr>"

text \<open>
  The same surroundings with a token that notifies the receiver of a transfer, and an
  owner contract that answers the notification by calling \<open>changeStateToLive\<close> and
  \<open>changeStateToEnded\<close>.
\<close>

definition hook_env :: "erc20 env" where
  "hook_env =
     std_env\<lparr>safeTransfer := (\<lambda>caller to amount w.
        map_option
          (Pair (if to = boss
                 then [CallChangeStateToLive boss, CallChangeStateToEnded boss] else []))
          (erc20_transfer caller to amount (tokens w)))\<rparr>"

text \<open>The storage that \<open>constructor ''demo'' token_addr boss collector\<close> returns.\<close>

definition ledger0 :: campaign where
  "ledger0 = \<lparr>title = ''demo'', tokenAddress = token_addr, totalDeposits = 0,
               owner = boss, currentState = Graduating, feeRecipient = collector,
               deposits = (\<lambda>_. 0), allocations = (\<lambda>_. 0), hasClaimed = (\<lambda>_. False),
               depositors = []\<rparr>"

text \<open>Alice and Bob hold 1000 tokens each and have approved the campaign for 1000.\<close>

definition tokens0 :: erc20 where
  "tokens0 = \<lparr>balances = (\<lambda>_. 0)(alice := 1000, bob := 1000),
              allowances = (\<lambda>_ _. 0)(alice := (\<lambda>_. 0)(campaign_addr := 1000),
                                       bob := (\<lambda>_. 0)(campaign_addr := 1000))\<rparr>"

definition world0 :: "erc20 world" where
  "world0 = deployed ledger0 tokens0 0"

text \<open>Alice deposits 150, then the owner takes the campaign to \<open>Live\<close> and to \<open>Ended\<close>.\<close>

definition ended_world :: "erc20 world" where
  "ended_world =
     run std_env [Call (CallDeposit alice DEPOSIT_FEE 150), Call (CallChangeStateToLive boss),
                  Call (CallChangeStateToEnded boss)] world0"

text \<open>Alice deposits 100 while the campaign is \<open>Graduating\<close>.\<close>

definition refund_world :: "erc20 world" where
  "refund_world = run std_env [Call (CallDeposit alice DEPOSIT_FEE 100)] world0"

text \<open>Alice deposits 100, the campaign goes \<open>Live\<close>, Bob deposits 50.\<close>

definition live_world :: "erc20 world" where
  "live_world =
     run std_env [Call (CallDeposit alice DEPOSIT_FEE 100), Call (CallChangeStateToLive boss),
                  Call (CallDeposit bob DEPOSIT_FEE 50)] world0"

text \<open>In \<open>ended_world\<close> the owner allocates 100 to Alice and 40 to Bob in one call.\<close>

definition allocated_world :: "erc20 world" where
  "allocated_world =
     run std_env [Call (CallSetAllocations boss [alice, bob] [100, 40])] ended_world"

text \<open>Then Alice claims, and the owner sets her allocation to 0.\<close>

definition reset_world :: "erc20 world" where
  "reset_world =
     run std_env [Call (CallClaimTokens alice), Call (CallSetAllocations boss [alice] [0])]
       allocated_world"

text \<open>In \<open>ended_world\<close> the owner allocates 100 to Alice, then, in a second call, 100
  to Bob.\<close>

definition two_batches_world :: "erc20 world" where
  "two_batches_world =
     run std_env [Call (CallSetAllocations boss [alice] [100]),
                  Call (CallSetAllocations boss [bob] [100])] ended_world"

text \<open>In \<open>ended_world\<close> the owner allocates 100 to Bob, who never deposited; then the
  owner calls \<open>rescueRemainingTokens\<close>.\<close>

definition bob_allocated_world :: "erc20 world" where
  "bob_allocated_world = run std_env [Call (CallSetAllocations boss [bob] [100])] ended_world"

definition swept_world :: "erc20 world" where
  "swept_world = run std_env [Call (CallRescueRemainingTokens boss)] bob_allocated_world"

text \<open>Right after deployment Alice calls \<open>deposit(0)\<close> twice, each time with the fee.\<close>

definition zero_deposits_world :: "erc20 world" where
  "zero_deposits_world =
     run std_env [Call (CallDeposit alice DEPOSIT_FEE 0), Call (CallDeposit alice DEPOSIT_FEE 0)]
       world0"

text \<open>With the notifying token: the owner contract holds 1000 tokens, has approved the
  campaign, and deposits 100 while the campaign is \<open>Graduating\<close>.\<close>

definition tokens_boss :: erc20 where
  "tokens_boss = \<lparr>balances = (\<lambda>_. 0)(boss := 1000),
                  allowances = (\<lambda>_ _. 0)(boss := (\<lambda>_. 0)(campaign_addr := 1000))\<rparr>"

definition hooked_world :: "erc20 world" where
  "hooked_world =
     run hook_env [Call (CallDeposit boss DEPOSIT_FEE 100)] (deployed ledger0 tokens_boss 0)"

subsection \<open>Measures and invariants\<close>

text \<open>
  The deposit ledger is consistent: every identity with a nonzero deposit is in the
  depositor list, and \<open>totalDeposits\<close> is the sum, without wrap-around, of the
  deposits of all identities.
\<close>

definition dep_inv :: "campaign \<Rightarrow> bool" where
  "dep_inv c \<longleftrightarrow>
     (\<forall>a. deposits c a \<noteq> 0 \<longrightarrow> a \<in> set (depositors c)) \<and>
     unat (totalDeposits c) = (\<Sum>a\<in>UNIV. unat (deposits c a))"

text \<open>The sum of the amounts of the \<open>FundsRescued\<close> events of a call.\<close>

fun refunded :: "event list \<Rightarrow> nat" where
  "refunded [] = 0"
| "refunded (FundsRescued d a # es) = unat a + refunded es"
| "refunded (e # es) = refunded es"

text \<open>
  The refunds that are due for a depositor list and a table of deposits: one for every
  listed identity with a nonzero deposit, at its first entry in the list, of the whole
  deposit.
\<close>

fun refunds_due :: "address list \<Rightarrow> (address \<Rightarrow> uint256) \<Rightarrow> (address \<times> uint256) list" where
  "refunds_due [] deps = []"
| "refunds_due (d # ds) deps =
     (if deps d > 0 then (d, deps d) # refunds_due ds (deps(d := 0)) else refunds_due ds deps)"

text \<open>
  Paying a list of refunds in its order: the deposit is set to zero, the amount is
  transferred from the contract to the depositor and \<open>FundsRescued\<close> is emitted; if one
  transfer fails, nothing is returned.
\<close>

fun pay_refunds ::
  "'t env \<Rightarrow> (address \<times> uint256) list \<Rightarrow> 't world \<Rightarrow> event list \<Rightarrow> ('t world \<times> event list) option"
  where
  "pay_refunds env [] w evs = Some (w, evs)"
| "pay_refunds env ((d, a) # ps) w evs =
     (case safeTransfer env (this env) d a
             (w\<lparr>ledger := (ledger w)\<lparr>deposits := (deposits (ledger w))(d := 0)\<rparr>\<rparr>) of
        None \<Rightarrow> None
      | Some sent \<Rightarrow>
          (case after_call sent
                  (w\<lparr>ledger := (ledger w)\<lparr>deposits := (deposits (ledger w))(d := 0)\<rparr>\<rparr>) of
             (w1, evs1) \<Rightarrow> pay_refunds env ps w1 (evs @ evs1 @ [FundsRescued d a])))"

text \<open>The sum of all allocations, over every identity.\<close>

definition sum_allocations :: "campaign \<Rightarrow> nat" where
  "sum_allocations c = (\<Sum>a\<in>UNIV. unat (allocations c a))"

text \<open>The transitions of the lifecycle.\<close>

fun legal_transition :: "State \<Rightarrow> State \<Rightarrow> bool" where
  "legal_transition Graduating Live = True"
| "legal_transition Graduating Rescue = True"
| "legal_transition Live Ended = True"
| "legal_transition _ _ = False"

text \<open>The states announced by the \<open>StateChanged\<close> events of a call, in their order.\<close>

fun announced :: "event list \<Rightarrow> State list" where
  "announced [] = []"
| "announced (StateChanged s # es) = s # announced es"
| "announced (e # es) = announced es"

text \<open>Calls that deposit a nonzero amount, or do not deposit at all.\<close>

fun positive_call :: "call \<Rightarrow> bool" where
  "positive_call (CallDeposit s v amount) = (amount \<noteq> 0)"
| "positive_call c = True"

fun positive_action :: "'t action \<Rightarrow> bool" where
  "positive_action (Call c) = positive_call c"
| "positive_action (Outside t b) = True"

text \<open>The depositor list has no duplicates and, while deposits are still accepted,
  every listed identity holds a nonzero deposit.\<close>

definition list_inv :: "campaign \<Rightarrow> bool" where
  "list_inv c \<longleftrightarrow>
     distinct (depositors c) \<and>
     (currentState c = Graduating \<or> currentState c = Live \<longrightarrow>
        (\<forall>a\<in>set (depositors c). deposits c a \<noteq> 0))"

section \<open>Properties\<close>

subsection \<open>Evaluation and arithmetic\<close>

lemmas scenario_defs = std_env_def hook_env_def ledger0_def tokens0_def tokens_boss_def
  world0_def ended_world_def refund_world_def live_world_def allocated_world_def
  reset_world_def two_batches_world_def bob_allocated_world_def swept_world_def
  zero_deposits_world_def hooked_world_def
  deployed_def deposit_def changeStateToLive_def changeStateToEnded_def
  changeStateToRescue_def setAllocations_def claimTokens_def rescueRemainingTokens_def
  updateFeeRecipient_def withdrawEther_def after_call_def checked_add_def DEPOSIT_FEE_def
  erc20_transfer_def erc20_transferFrom_def Let_def

lemma constructor_demo: "constructor ''demo'' token_addr boss collector = Inr ledger0"
  by (simp add: constructor_def ledger0_def)

lemma checked_add_unat: "checked_add a b = Some c \<Longrightarrow> unat c = unat a + unat b"
  by (auto simp: checked_add_def unat_add_lem [THEN iffD1] split: if_splits)

lemma sum_upd_UNIV:
  fixes f :: "address \<Rightarrow> uint256"
  shows "(\<Sum>a\<in>UNIV. unat ((f(s := v)) a)) + unat (f s) = (\<Sum>a\<in>UNIV. unat (f a)) + unat v"
proof -
  have fin: "finite (UNIV :: address set)" by simp
  have 1: "(\<Sum>a\<in>UNIV. unat ((f(s := v)) a)) = unat v + (\<Sum>a\<in>UNIV - {s}. unat ((f(s := v)) a))"
    using sum.remove [OF fin, of s "\<lambda>a. unat ((f(s := v)) a)"] by simp
  have 2: "(\<Sum>a\<in>UNIV. unat (f a)) = unat (f s) + (\<Sum>a\<in>UNIV - {s}. unat (f a))"
    using sum.remove [OF fin, of s "\<lambda>a. unat (f a)"] by simp
  have 3: "(\<Sum>a\<in>UNIV - {s}. unat ((f(s := v)) a)) = (\<Sum>a\<in>UNIV - {s}. unat (f a))"
    by (rule sum.cong) auto
  show ?thesis using 1 2 3 by simp
qed

lemma refunded_append: "refunded (xs @ ys) = refunded xs + refunded ys"
  by (induction xs rule: refunded.induct) auto

subsection \<open>What calls back can and cannot change\<close>

text \<open>
  A call back writes at most the state, the allocations and the fee recipient: the
  deposits, their total, the depositor list, the claim flags, the owner, the token and
  the native balance are out of its reach, and it emits no \<open>FundsRescued\<close>.
\<close>

lemma allocation_loop_refunded:
  "allocation_loop ps allocs acc evs = Inr (allocs', acc', evs') \<Longrightarrow> refunded evs' = refunded evs"
proof (induction ps arbitrary: allocs acc evs)
  case Nil
  then show ?case by simp
next
  case (Cons p ps)
  obtain u a where p: "p = (u, a)" by (cases p)
  from Cons.prems p obtain t1 where
    rec: "allocation_loop ps (allocs(u := a)) t1 (evs @ [AllocationsSet u a])
            = Inr (allocs', acc', evs')"
    by (auto split: option.splits)
  from Cons.IH [OF rec] show ?case by (simp add: refunded_append)
qed

lemma reenter_frame:
  assumes "reenter c w = Inr (w', evs)"
  shows "deposits (ledger w') = deposits (ledger w) \<and>
         totalDeposits (ledger w') = totalDeposits (ledger w) \<and>
         depositors (ledger w') = depositors (ledger w) \<and>
         hasClaimed (ledger w') = hasClaimed (ledger w) \<and>
         owner (ledger w') = owner (ledger w) \<and>
         tokens w' = tokens w \<and> ether w' = ether w \<and> refunded evs = 0"
proof (cases c)
  case (CallDeposit s v amount)
  then show ?thesis using assms by simp
next
  case (CallChangeStateToLive s)
  then show ?thesis using assms
    by (auto simp: changeStateToLive_def Let_def split: if_splits)
next
  case (CallChangeStateToRescue s)
  then show ?thesis using assms by (simp split: if_splits)
next
  case (CallChangeStateToEnded s)
  then show ?thesis using assms
    by (auto simp: changeStateToEnded_def Let_def split: if_splits)
next
  case (CallSetAllocations s users amounts)
  then show ?thesis using assms allocation_loop_refunded [of _ _ 0 "[]"]
    by (auto simp: setAllocations_def Let_def split: if_splits sum.splits)
next
  case (CallClaimTokens s)
  then show ?thesis using assms by (simp split: if_splits)
next
  case (CallRescueRemainingTokens s)
  then show ?thesis using assms by (simp split: if_splits)
next
  case (CallUpdateFeeRecipient s r)
  then show ?thesis using assms
    by (auto simp: updateFeeRecipient_def Let_def split: if_splits)
next
  case (CallWithdrawEther s)
  then show ?thesis using assms by (simp split: if_splits)
qed

lemma callbacks_frame:
  "callbacks cs w evs = (w', evs') \<Longrightarrow>
     deposits (ledger w') = deposits (ledger w) \<and>
     totalDeposits (ledger w') = totalDeposits (ledger w) \<and>
     depositors (ledger w') = depositors (ledger w) \<and>
     hasClaimed (ledger w') = hasClaimed (ledger w) \<and>
     owner (ledger w') = owner (ledger w) \<and>
     tokens w' = tokens w \<and> ether w' = ether w \<and> refunded evs' = refunded evs"
proof (induction cs arbitrary: w evs)
  case Nil
  then show ?case by simp
next
  case (Cons c cs)
  show ?case
  proof (cases "reenter c w")
    case (Inl e)
    with Cons.prems have "callbacks cs w evs = (w', evs')" by simp
    from Cons.IH [OF this] show ?thesis .
  next
    case (Inr r)
    obtain w1 evs1 where r: "r = (w1, evs1)" by (cases r)
    with Cons.prems Inr have "callbacks cs w1 (evs @ evs1) = (w', evs')" by simp
    from Cons.IH [OF this] reenter_frame [OF Inr [unfolded r]]
    show ?thesis by (simp add: refunded_append)
  qed
qed

lemma after_call_frame:
  assumes "after_call answer w = (w', evs)"
  shows "deposits (ledger w') = deposits (ledger w) \<and>
         totalDeposits (ledger w') = totalDeposits (ledger w) \<and>
         depositors (ledger w') = depositors (ledger w) \<and>
         hasClaimed (ledger w') = hasClaimed (ledger w) \<and>
         owner (ledger w') = owner (ledger w) \<and>
         tokens w' = snd answer \<and> ether w' = ether w \<and> refunded evs = 0"
proof -
  obtain w1 evs1 where c: "callbacks (fst answer) w [] = (w1, evs1)"
    by (cases "callbacks (fst answer) w []")
  with assms have "w' = w1\<lparr>tokens := snd answer\<rparr>" "evs = evs1"
    by (simp_all add: after_call_def)
  with callbacks_frame [OF c] show ?thesis by simp
qed

text \<open>A call back moves the state, if at all, from \<open>Graduating\<close> to \<open>Live\<close> or from \<open>Live\<close>
  to \<open>Ended\<close>.\<close>

lemma reenter_state:
  assumes "reenter c w = Inr (w', evs)"
  shows "currentState (ledger w') = currentState (ledger w) \<or>
         legal_transition (currentState (ledger w)) (currentState (ledger w'))"
proof (cases c)
  case (CallDeposit s v amount)
  then show ?thesis using assms by simp
next
  case (CallChangeStateToLive s)
  then show ?thesis using assms
    by (auto simp: changeStateToLive_def Let_def split: if_splits)
next
  case (CallChangeStateToRescue s)
  then show ?thesis using assms by (simp split: if_splits)
next
  case (CallChangeStateToEnded s)
  then show ?thesis using assms
    by (auto simp: changeStateToEnded_def Let_def split: if_splits)
next
  case (CallSetAllocations s users amounts)
  then show ?thesis using assms
    by (auto simp: setAllocations_def Let_def split: if_splits sum.splits)
next
  case (CallClaimTokens s)
  then show ?thesis using assms by (simp split: if_splits)
next
  case (CallRescueRemainingTokens s)
  then show ?thesis using assms by (simp split: if_splits)
next
  case (CallUpdateFeeRecipient s r)
  then show ?thesis using assms
    by (auto simp: updateFeeRecipient_def Let_def split: if_splits)
next
  case (CallWithdrawEther s)
  then show ?thesis using assms by (simp split: if_splits)
qed

lemma callbacks_state:
  "callbacks cs w evs = (w', evs') \<Longrightarrow>
     (currentState (ledger w), currentState (ledger w')) \<in> {(s, s'). legal_transition s s'}\<^sup>*"
proof (induction cs arbitrary: w evs)
  case Nil
  then show ?case by simp
next
  case (Cons c cs)
  show ?case
  proof (cases "reenter c w")
    case (Inl e)
    with Cons.prems have "callbacks cs w evs = (w', evs')" by simp
    from Cons.IH [OF this] show ?thesis .
  next
    case (Inr r)
    obtain w1 evs1 where r: "r = (w1, evs1)" by (cases r)
    with Cons.prems Inr have rec: "callbacks cs w1 (evs @ evs1) = (w', evs')" by simp
    have "(currentState (ledger w), currentState (ledger w1)) \<in> {(s, s'). legal_transition s s'}\<^sup>*"
      using reenter_state [OF Inr [unfolded r]] by auto
    with Cons.IH [OF rec] show ?thesis by simp
  qed
qed

lemma after_call_state:
  assumes "after_call answer w = (w', evs)"
  shows "(currentState (ledger w), currentState (ledger w')) \<in> {(s, s'). legal_transition s s'}\<^sup>*"
proof -
  obtain w1 evs1 where c: "callbacks (fst answer) w [] = (w1, evs1)"
    by (cases "callbacks (fst answer) w []")
  with assms have "w' = w1\<lparr>tokens := snd answer\<rparr>"
    by (simp add: after_call_def)
  with callbacks_state [OF c] show ?thesis by simp
qed

lemma legal_from_Live: "(Live, s') \<in> {(s, s'). legal_transition s s'}\<^sup>* \<Longrightarrow> s' = Live \<or> s' = Ended"
proof (induction rule: rtrancl_induct)
  case base
  then show ?case by simp
next
  case (step y z)
  then show ?case by (cases z) auto
qed

lemma legal_from_terminal:
  "(s, s') \<in> {(s, s'). legal_transition s s'}\<^sup>* \<Longrightarrow> s = Rescue \<or> s = Ended \<Longrightarrow> s' = s"
proof (induction rule: rtrancl_induct)
  case base
  then show ?case by simp
next
  case (step y z)
  then show ?case by auto
qed

subsection \<open>Successful calls of the guarded functions\<close>

lemma deposit_success:
  assumes "deposit env s v amount w = Inr (w', evs)"
  obtains sent w1 evs1 pulled w2 evs2 d' td' where
    "currentState (ledger w) = Graduating \<or> currentState (ledger w) = Live"
    "v = DEPOSIT_FEE"
    "sendValue env (feeRecipient (ledger w)) v w = Some sent"
    "after_call sent w = (w1, evs1)"
    "safeTransferFrom env (this env) s (this env) amount w1 = Some pulled"
    "after_call pulled w1 = (w2, evs2)"
    "checked_add (deposits (ledger w2) s) amount = Some d'"
    "checked_add (totalDeposits (ledger w2)) amount = Some td'"
    "w' = w2\<lparr>ledger := (ledger w2)
             \<lparr>depositors := (if deposits (ledger w2) s = 0 then depositors (ledger w2) @ [s]
                              else depositors (ledger w2)),
              deposits := (deposits (ledger w2))(s := d'), totalDeposits := td'\<rparr>\<rparr>"
    "evs = evs1 @ evs2 @ [Deposit s amount v]"
  using assms
  by (auto simp: deposit_def Let_def split: if_splits option.splits prod.splits)

lemma claimTokens_success:
  assumes "claimTokens env s w = Inr (w', evs)"
  obtains sent evs1 where
    "currentState (ledger w) = Ended"
    "allocations (ledger w) s \<noteq> 0"
    "\<not> hasClaimed (ledger w) s"
    "safeTransfer env (this env) s (allocations (ledger w) s)
       (w\<lparr>ledger := (ledger w)\<lparr>hasClaimed := (hasClaimed (ledger w))(s := True)\<rparr>\<rparr>) = Some sent"
    "after_call sent (w\<lparr>ledger := (ledger w)\<lparr>hasClaimed := (hasClaimed (ledger w))(s := True)\<rparr>\<rparr>)
       = (w', evs1)"
    "evs = evs1 @ [TokensClaimed s (allocations (ledger w) s)]"
  using assms
  by (auto simp: claimTokens_def Let_def word_greater_zero_iff
      split: if_splits option.splits prod.splits)

lemma rescueRemainingTokens_success:
  assumes "rescueRemainingTokens env s w = Inr (w', evs)"
  obtains acc bal sent evs1 where
    "s = owner (ledger w)" "currentState (ledger w) = Ended"
    "allocated_loop (depositors (ledger w)) (allocations (ledger w)) 0 = Some acc"
    "balanceOf env (this env) (tokens w) = Some bal"
    "acc < bal"
    "safeTransfer env (this env) (owner (ledger w)) (bal - acc) w = Some sent"
    "after_call sent w = (w', evs1)"
    "evs = evs1 @ [RemainingTokensRescued (bal - acc)]"
  using assms
  by (auto simp: rescueRemainingTokens_def Let_def split: if_splits option.splits prod.splits)

lemma withdrawEther_success:
  assumes "withdrawEther env s w = Inr (w', evs)"
  obtains sent where
    "s = owner (ledger w)" "ether w \<noteq> 0"
    "sendValue env (owner (ledger w)) (ether w) (w\<lparr>ether := 0\<rparr>) = Some sent"
    "after_call sent (w\<lparr>ether := 0\<rparr>) = (w', evs)"
  using assms
  by (auto simp: withdrawEther_def Let_def word_greater_zero_iff
      split: if_splits option.splits prod.splits)

subsection \<open>The deposit ledger\<close>

lemma refunds_due_sum:
  "sum_list (map (\<lambda>p. unat (snd p)) (refunds_due ds deps)) = (\<Sum>a\<in>set ds. unat (deps a))"
proof (induction ds arbitrary: deps)
  case Nil
  then show ?case by simp
next
  case (Cons d ds)
  show ?case
  proof (cases "deps d > 0")
    case True
    define deps' where "deps' = deps(d := 0)"
    have unf: "refunds_due (d # ds) deps = (d, deps d) # refunds_due ds deps'"
      using True by (simp add: deps'_def)
    have ih: "sum_list (map (\<lambda>p. unat (snd p)) (refunds_due ds deps'))
                = (\<Sum>a\<in>set ds. unat (deps' a))"
      by (rule Cons.IH)
    have s1: "(\<Sum>a\<in>set ds. unat (deps' a)) = (\<Sum>a\<in>set ds - {d}. unat (deps a))"
    proof -
      have "(\<Sum>a\<in>set ds. unat (deps' a)) = (\<Sum>a\<in>set ds - {d}. unat (deps' a))"
        by (rule sum.mono_neutral_right) (auto simp: deps'_def)
      also have "\<dots> = (\<Sum>a\<in>set ds - {d}. unat (deps a))"
        by (rule sum.cong) (auto simp: deps'_def)
      finally show ?thesis .
    qed
    have s2: "(\<Sum>a\<in>set (d # ds). unat (deps a))
                = unat (deps d) + (\<Sum>a\<in>set ds - {d}. unat (deps a))"
      using sum.insert_remove [of "set ds" "\<lambda>a. unat (deps a)" d] by simp
    show ?thesis by (simp only: unf list.map sum_list.Cons snd_conv ih s1 s2)
  next
    case False
    then have z: "deps d = 0" by (simp add: word_greater_zero_iff)
    have s2: "(\<Sum>a\<in>set (d # ds). unat (deps a)) = (\<Sum>a\<in>set ds. unat (deps a))"
      using z sum.insert_remove [of "set ds" "\<lambda>a. unat (deps a)" d]
      by (cases "d \<in> set ds") (auto simp: insert_absorb)
    show ?thesis using False Cons.IH [of deps] s2 by simp
  qed
qed

text \<open>The refund loop pays exactly the refunds that are due, in their order, and fails
  when one of these transfers fails.\<close>

lemma refund_loop_pays:
  "refund_loop env ds w evs =
     (case pay_refunds env (refunds_due ds (deposits (ledger w))) w evs of
        None \<Rightarrow> Inl TokenCallFailed
      | Some r \<Rightarrow> Inr r)"
proof (induction ds arbitrary: w evs)
  case Nil
  then show ?case by simp
next
  case (Cons d ds)
  let ?a = "deposits (ledger w) d"
  let ?w0 = "w\<lparr>ledger := (ledger w)\<lparr>deposits := (deposits (ledger w))(d := 0)\<rparr>\<rparr>"
  show ?case
  proof (cases "?a > 0")
    case False
    then show ?thesis using Cons.IH [of w evs] by (simp add: Let_def)
  next
    case True
    show ?thesis
    proof (cases "safeTransfer env (this env) d ?a ?w0")
      case None
      then show ?thesis using True by (simp add: Let_def)
    next
      case (Some sent)
      obtain w1 evs1 where ac: "after_call sent ?w0 = (w1, evs1)"
        by (cases "after_call sent ?w0")
      from after_call_frame [OF ac]
      have d1: "deposits (ledger w1) = (deposits (ledger w))(d := 0)" by simp
      note ih = Cons.IH [of w1 "evs @ evs1 @ [FundsRescued d ?a]", unfolded d1]
      have l: "refund_loop env (d # ds) w evs
                 = refund_loop env ds w1 (evs @ evs1 @ [FundsRescued d ?a])"
        using True Some ac by (simp add: Let_def)
      have r: "pay_refunds env (refunds_due (d # ds) (deposits (ledger w))) w evs
                 = pay_refunds env (refunds_due ds ((deposits (ledger w))(d := 0))) w1
                     (evs @ evs1 @ [FundsRescued d ?a])"
        using True Some ac by simp
      show ?thesis by (simp only: l r ih)
    qed
  qed
qed

lemma pay_refunds_result:
  "pay_refunds env ps w evs = Some (w', evs') \<Longrightarrow>
     deposits (ledger w') = (\<lambda>a. if a \<in> fst ` set ps then 0 else deposits (ledger w) a) \<and>
     totalDeposits (ledger w') = totalDeposits (ledger w) \<and>
     depositors (ledger w') = depositors (ledger w) \<and>
     hasClaimed (ledger w') = hasClaimed (ledger w) \<and>
     owner (ledger w') = owner (ledger w) \<and>
     ether w' = ether w \<and>
     refunded evs' = refunded evs + sum_list (map (\<lambda>p. unat (snd p)) ps)"
proof (induction ps arbitrary: w evs)
  case Nil
  then show ?case by simp
next
  case (Cons p ps)
  obtain d a where p: "p = (d, a)" by (cases p)
  let ?w0 = "w\<lparr>ledger := (ledger w)\<lparr>deposits := (deposits (ledger w))(d := 0)\<rparr>\<rparr>"
  from Cons.prems p obtain sent w1 evs1 where
    ac: "after_call sent ?w0 = (w1, evs1)" and
    rec: "pay_refunds env ps w1 (evs @ evs1 @ [FundsRescued d a]) = Some (w', evs')"
    by (auto split: option.splits prod.splits)
  note f = after_call_frame [OF ac]
  from Cons.IH [OF rec] f show ?case
    by (auto simp: p refunded_append fun_eq_iff)
qed

lemma refunds_due_members: "fst ` set (refunds_due ds deps) = {a \<in> set ds. deps a \<noteq> 0}"
proof (induction ds arbitrary: deps)
  case Nil
  then show ?case by simp
next
  case (Cons d ds)
  show ?case
  proof (cases "deps d > 0")
    case True
    define deps' where "deps' = deps(d := 0)"
    have nz: "deps d \<noteq> 0" using True by (simp add: word_greater_zero_iff)
    have unf: "refunds_due (d # ds) deps = (d, deps d) # refunds_due ds deps'"
      using True by (simp add: deps'_def)
    have ih: "fst ` set (refunds_due ds deps') = {a \<in> set ds. deps' a \<noteq> 0}"
      by (rule Cons.IH)
    have "{a \<in> set ds. deps' a \<noteq> 0} = {a \<in> set ds. deps a \<noteq> 0} - {d}"
      by (auto simp: deps'_def)
    then have "fst ` set (refunds_due (d # ds) deps) = insert d ({a \<in> set ds. deps a \<noteq> 0} - {d})"
      by (simp only: unf ih list.set image_insert fst_conv)
    then show ?thesis using nz by auto
  next
    case False
    then have "deps d = 0" by (simp add: word_greater_zero_iff)
    then show ?thesis using False Cons.IH [of deps] by auto
  qed
qed

lemma constructor_dep_inv: "constructor tt ta ow fr = Inr c \<Longrightarrow> dep_inv c"
  by (auto simp: constructor_def dep_inv_def split: if_splits)

lemma deposit_effect:
  assumes "deposit env s v amount w = Inr (w', evs)"
  obtains d' td' where
    "checked_add (deposits (ledger w) s) amount = Some d'"
    "checked_add (totalDeposits (ledger w)) amount = Some td'"
    "deposits (ledger w') = (deposits (ledger w))(s := d')"
    "totalDeposits (ledger w') = td'"
    "depositors (ledger w') = (if deposits (ledger w) s = 0 then depositors (ledger w) @ [s]
                               else depositors (ledger w))"
    "hasClaimed (ledger w') = hasClaimed (ledger w)"
    "ether w' = ether w"
proof -
  from assms obtain sent w1 evs1 pulled w2 evs2 d' td' where
    a1: "after_call sent w = (w1, evs1)" and
    a2: "after_call pulled w1 = (w2, evs2)" and
    d': "checked_add (deposits (ledger w2) s) amount = Some d'" and
    td': "checked_add (totalDeposits (ledger w2)) amount = Some td'" and
    w': "w' = w2\<lparr>ledger := (ledger w2)
             \<lparr>depositors := (if deposits (ledger w2) s = 0 then depositors (ledger w2) @ [s]
                              else depositors (ledger w2)),
              deposits := (deposits (ledger w2))(s := d'), totalDeposits := td'\<rparr>\<rparr>"
    by (rule deposit_success)
  note f1 = after_call_frame [OF a1] and f2 = after_call_frame [OF a2]
  show ?thesis
    using d' td' f1 f2 by (intro that [of d' td']) (simp_all add: w')
qed

lemma deposit_dep_inv:
  assumes "deposit env s v amount w = Inr (w', evs)" and "dep_inv (ledger w)"
  shows "dep_inv (ledger w')"
proof -
  let ?c = "ledger w"
  from assms(1) obtain d' td' where
    d': "checked_add (deposits ?c s) amount = Some d'" and
    td': "checked_add (totalDeposits ?c) amount = Some td'" and
    w': "deposits (ledger w') = (deposits ?c)(s := d')"
        "totalDeposits (ledger w') = td'"
        "depositors (ledger w') = (if deposits ?c s = 0 then depositors ?c @ [s]
                                   else depositors ?c)"
    by (rule deposit_effect)
  note ud = checked_add_unat [OF d'] and ut = checked_add_unat [OF td']
  have mem: "\<forall>a. deposits (ledger w') a \<noteq> 0 \<longrightarrow> a \<in> set (depositors (ledger w'))"
    using assms(2) by (auto simp: w' dep_inv_def)
  have "(\<Sum>a\<in>UNIV. unat (((deposits ?c)(s := d')) a)) + unat (deposits ?c s)
          = (\<Sum>a\<in>UNIV. unat (deposits ?c a)) + unat d'"
    by (rule sum_upd_UNIV)
  then have "unat td' = (\<Sum>a\<in>UNIV. unat (((deposits ?c)(s := d')) a))"
    using assms(2) ud ut by (simp add: dep_inv_def)
  then show ?thesis using mem by (simp add: dep_inv_def w')
qed

lemma rescue_result:
  assumes "changeStateToRescue env s w = Inr (w', evs)" and "dep_inv (ledger w)"
  shows "(\<forall>a. deposits (ledger w') a = 0) \<and> totalDeposits (ledger w') = 0 \<and>
         currentState (ledger w') = Rescue \<and>
         depositors (ledger w') = depositors (ledger w) \<and>
         hasClaimed (ledger w') = hasClaimed (ledger w) \<and>
         refunded evs = unat (totalDeposits (ledger w)) \<and>
         sum_list (map (\<lambda>p. unat (snd p))
                     (refunds_due (depositors (ledger w)) (deposits (ledger w))))
           = unat (totalDeposits (ledger w)) \<and>
         (\<exists>w1 evs1.
            pay_refunds env (refunds_due (depositors (ledger w)) (deposits (ledger w))) w []
              = Some (w1, evs1) \<and>
            w' = w1\<lparr>ledger := (ledger w1)\<lparr>totalDeposits := 0, currentState := Rescue\<rparr>\<rparr> \<and>
            evs = evs1 @ [StateChanged Rescue])"
proof -
  let ?c = "ledger w"
  let ?due = "refunds_due (depositors ?c) (deposits ?c)"
  from assms(1) obtain w1 evs1 where
    loop: "refund_loop env (depositors ?c) w [] = Inr (w1, evs1)" and
    w': "w' = w1\<lparr>ledger := (ledger w1)\<lparr>totalDeposits := 0, currentState := Rescue\<rparr>\<rparr>" and
    evs: "evs = evs1 @ [StateChanged Rescue]"
    by (auto simp: changeStateToRescue_def Let_def split: if_splits sum.splits)
  from loop have pay: "pay_refunds env ?due w [] = Some (w1, evs1)"
    by (simp add: refund_loop_pays split: option.splits)
  note r = pay_refunds_result [OF pay]
  have zero: "\<forall>a. deposits (ledger w1) a = 0"
    using r assms(2) by (auto simp: refunds_due_members dep_inv_def)
  have "(\<Sum>a\<in>set (depositors ?c). unat (deposits ?c a)) = (\<Sum>a\<in>UNIV. unat (deposits ?c a))"
    using assms(2) by (intro sum.mono_neutral_left) (auto simp: dep_inv_def unat_eq_0)
  then have total: "sum_list (map (\<lambda>p. unat (snd p)) ?due) = unat (totalDeposits ?c)"
    using assms(2) by (simp add: refunds_due_sum dep_inv_def)
  then have "refunded evs = unat (totalDeposits ?c)"
    using r by (simp add: evs refunded_append)
  then show ?thesis using zero r total pay w' evs by simp
qed

lemma exec_dep_inv:
  assumes "exec env c w = Inr (w', evs)" and "dep_inv (ledger w)"
  shows "dep_inv (ledger w')"
proof (cases c)
  case (CallDeposit s v amount)
  then show ?thesis using assms deposit_dep_inv by auto
next
  case (CallChangeStateToLive s)
  then show ?thesis using assms
    by (auto simp: changeStateToLive_def Let_def dep_inv_def split: if_splits)
next
  case (CallChangeStateToRescue s)
  with assms have r: "changeStateToRescue env s w = Inr (w', evs)" by simp
  from rescue_result [OF r assms(2)] show ?thesis by (simp add: dep_inv_def)
next
  case (CallChangeStateToEnded s)
  then show ?thesis using assms
    by (auto simp: changeStateToEnded_def Let_def dep_inv_def split: if_splits)
next
  case (CallSetAllocations s users amounts)
  then show ?thesis using assms
    by (auto simp: setAllocations_def Let_def dep_inv_def split: if_splits sum.splits)
next
  case (CallClaimTokens s)
  with assms have "claimTokens env s w = Inr (w', evs)" by simp
  then obtain sent evs1 where
    "after_call sent (w\<lparr>ledger := (ledger w)\<lparr>hasClaimed := (hasClaimed (ledger w))(s := True)\<rparr>\<rparr>)
       = (w', evs1)"
    by (rule claimTokens_success)
  from after_call_frame [OF this] assms(2) show ?thesis by (simp add: dep_inv_def)
next
  case (CallRescueRemainingTokens s)
  with assms have "rescueRemainingTokens env s w = Inr (w', evs)" by simp
  then obtain sent evs1 where "after_call sent w = (w', evs1)"
    by (rule rescueRemainingTokens_success)
  from after_call_frame [OF this] assms(2) show ?thesis by (simp add: dep_inv_def)
next
  case (CallUpdateFeeRecipient s r)
  then show ?thesis using assms
    by (auto simp: updateFeeRecipient_def Let_def dep_inv_def split: if_splits)
next
  case (CallWithdrawEther s)
  with assms have "withdrawEther env s w = Inr (w', evs)" by simp
  then obtain sent where "after_call sent (w\<lparr>ether := 0\<rparr>) = (w', evs)"
    by (rule withdrawEther_success)
  from after_call_frame [OF this] assms(2) show ?thesis by (simp add: dep_inv_def)
qed

lemma step_dep_inv: "dep_inv (ledger w) \<Longrightarrow> dep_inv (ledger (step env a w))"
proof (cases a)
  case (Call c)
  assume i: "dep_inv (ledger w)"
  show ?thesis
  proof (cases "exec env c w")
    case (Inl e)
    then show ?thesis using i Call by simp
  next
    case (Inr r)
    then obtain w' evs where "exec env c w = Inr (w', evs)" by (cases r) auto
    then show ?thesis using exec_dep_inv [OF _ i] Call by auto
  qed
next
  case (Outside t b)
  assume "dep_inv (ledger w)"
  then show ?thesis using Outside by (simp add: dep_inv_def)
qed

lemma run_dep_inv: "dep_inv (ledger w) \<Longrightarrow> dep_inv (ledger (run env acts w))"
  by (induction acts arbitrary: w) (auto simp: step_dep_inv)

lemma deployed_run_dep_inv:
  "constructor tt ta ow fr = Inr c0 \<Longrightarrow> dep_inv (ledger (run env acts (deployed c0 t0 b0)))"
  by (rule run_dep_inv) (simp add: deployed_def constructor_dep_inv)

text \<open>
  C4. After every operation of any sequence of operations on a deployed campaign,
  \<open>totalDeposits\<close> equals the sum of all nonzero deposited amounts. In particular a
  successful deposit raises \<open>totalDeposits\<close> and the caller's deposit by the same amount
  and touches no other deposit, and a successful \<open>changeStateToRescue\<close> sets both sides
  to zero.
\<close>

theorem totalDeposits_is_sum_of_deposits:
  assumes "constructor tt ta ow fr = Inr c0"
    and "w = run env acts (deployed c0 t0 b0)"
  shows "unat (totalDeposits (ledger w))
           = (\<Sum>a | deposits (ledger w) a \<noteq> 0. unat (deposits (ledger w) a)) \<and>
         (\<forall>s v amount w' evs. deposit env s v amount w = Inr (w', evs) \<longrightarrow>
            unat (totalDeposits (ledger w')) = unat (totalDeposits (ledger w)) + unat amount \<and>
            unat (deposits (ledger w') s) = unat (deposits (ledger w) s) + unat amount \<and>
            (\<forall>a. a \<noteq> s \<longrightarrow> deposits (ledger w') a = deposits (ledger w) a)) \<and>
         (\<forall>s w' evs. changeStateToRescue env s w = Inr (w', evs) \<longrightarrow>
            totalDeposits (ledger w') = 0 \<and> (\<forall>a. deposits (ledger w') a = 0))"
proof (intro conjI allI impI)
  let ?c = "ledger w"
  have i: "dep_inv ?c"
    unfolding assms(2) using assms(1) by (rule deployed_run_dep_inv)
  then have "unat (totalDeposits ?c) = (\<Sum>a\<in>UNIV. unat (deposits ?c a))"
    by (simp add: dep_inv_def)
  also have "\<dots> = (\<Sum>a | deposits ?c a \<noteq> 0. unat (deposits ?c a))"
    by (rule sum.mono_neutral_right) (auto simp: unat_eq_0)
  finally show "unat (totalDeposits ?c) = (\<Sum>a | deposits ?c a \<noteq> 0. unat (deposits ?c a))" .
  {
    fix s v amount w' evs
    assume d: "deposit env s v amount w = Inr (w', evs)"
    then obtain d' td' where
      d': "checked_add (deposits ?c s) amount = Some d'" and
      td': "checked_add (totalDeposits ?c) amount = Some td'" and
      w': "deposits (ledger w') = (deposits ?c)(s := d')" "totalDeposits (ledger w') = td'"
      by (rule deposit_effect)
    show "unat (totalDeposits (ledger w')) = unat (totalDeposits ?c) + unat amount"
      using checked_add_unat [OF td'] w' by simp
    show "unat (deposits (ledger w') s) = unat (deposits ?c s) + unat amount"
      using checked_add_unat [OF d'] w' by simp
    fix a
    assume "a \<noteq> s"
    then show "deposits (ledger w') a = deposits ?c a"
      using w' by simp
  }
  {
    fix s w' evs
    assume r: "changeStateToRescue env s w = Inr (w', evs)"
    from rescue_result [OF r i] show "totalDeposits (ledger w') = 0" by simp
    fix a
    from rescue_result [OF r i] show "deposits (ledger w') a = 0" by simp
  }
qed

theorem totalDeposits_is_sum_of_deposits_witness:
  "constructor ''demo'' token_addr boss collector = Inr ledger0 \<and>
   live_world =
     run std_env [Call (CallDeposit alice DEPOSIT_FEE 100), Call (CallChangeStateToLive boss),
                  Call (CallDeposit bob DEPOSIT_FEE 50)] (deployed ledger0 tokens0 0) \<and>
   totalDeposits (ledger live_world) = 150 \<and>
   (\<Sum>a | deposits (ledger live_world) a \<noteq> 0. unat (deposits (ledger live_world) a)) = 150"
proof -
  have w: "live_world =
     run std_env [Call (CallDeposit alice DEPOSIT_FEE 100), Call (CallChangeStateToLive boss),
                  Call (CallDeposit bob DEPOSIT_FEE 50)] (deployed ledger0 tokens0 0)"
    by (simp only: live_world_def world0_def)
  have t: "totalDeposits (ledger live_world) = 150"
    by (simp add: scenario_defs)
  have "unat (totalDeposits (ledger live_world))
          = (\<Sum>a | deposits (ledger live_world) a \<noteq> 0. unat (deposits (ledger live_world) a))"
    using totalDeposits_is_sum_of_deposits [OF constructor_demo w] by blast
  then have "(\<Sum>a | deposits (ledger live_world) a \<noteq> 0. unat (deposits (ledger live_world) a)) = 150"
    by (simp only: t) simp
  then show ?thesis using t constructor_demo w by blast
qed

text \<open>
  C7. A successful \<open>changeStateToRescue\<close> on a campaign reached by any sequence of
  operations was called by the owner in \<open>Graduating\<close>; afterwards every deposit and
  \<open>totalDeposits\<close> are zero and the state is \<open>Rescue\<close>. The transfers it has issued are
  the refunds due at entry, one to every depositor with a nonzero deposit, of that
  deposit: each of them was made and succeeded, in the order of the list, and the token
  is in the state in which the last of them left it. Their amounts, and the amounts of
  the \<open>FundsRescued\<close> events, add up to \<open>totalDeposits\<close> as it was before the call.
\<close>

theorem changeStateToRescue_refunds_all:
  assumes "constructor tt ta ow fr = Inr c0"
    and "w = run env acts (deployed c0 t0 b0)"
    and "changeStateToRescue env s w = Inr (w', evs)"
  shows "s = owner (ledger w) \<and> currentState (ledger w) = Graduating \<and>
         (\<forall>a. deposits (ledger w') a = 0) \<and> totalDeposits (ledger w') = 0 \<and>
         currentState (ledger w') = Rescue \<and>
         refunded evs = unat (totalDeposits (ledger w)) \<and>
         sum_list (map (\<lambda>p. unat (snd p))
                     (refunds_due (depositors (ledger w)) (deposits (ledger w))))
           = unat (totalDeposits (ledger w)) \<and>
         (\<exists>w1 evs1.
            pay_refunds env (refunds_due (depositors (ledger w)) (deposits (ledger w))) w []
              = Some (w1, evs1) \<and>
            w' = w1\<lparr>ledger := (ledger w1)\<lparr>totalDeposits := 0, currentState := Rescue\<rparr>\<rparr> \<and>
            evs = evs1 @ [StateChanged Rescue])"
proof -
  have i: "dep_inv (ledger w)"
    unfolding assms(2) using assms(1) by (rule deployed_run_dep_inv)
  have g: "s = owner (ledger w) \<and> currentState (ledger w) = Graduating"
    using assms(3) by (auto simp: changeStateToRescue_def Let_def split: if_splits)
  from rescue_result [OF assms(3) i] g show ?thesis by simp
qed

theorem changeStateToRescue_refunds_all_witness:
  "constructor ''demo'' token_addr boss collector = Inr ledger0 \<and>
   refund_world = run std_env [Call (CallDeposit alice DEPOSIT_FEE 100)] (deployed ledger0 tokens0 0) \<and>
   \<not> isl (changeStateToRescue std_env boss refund_world) \<and>
   totalDeposits (ledger refund_world) = 100 \<and>
   balances (tokens refund_world) alice = 900 \<and>
   balances (tokens refund_world) campaign_addr = 100 \<and>
   refunds_due (depositors (ledger refund_world)) (deposits (ledger refund_world))
     = [(alice, 100)] \<and>
   refunded (snd (projr (changeStateToRescue std_env boss refund_world))) = 100 \<and>
   deposits (ledger (fst (projr (changeStateToRescue std_env boss refund_world)))) alice = 0 \<and>
   totalDeposits (ledger (fst (projr (changeStateToRescue std_env boss refund_world)))) = 0 \<and>
   currentState (ledger (fst (projr (changeStateToRescue std_env boss refund_world)))) = Rescue \<and>
   balances (tokens (fst (projr (changeStateToRescue std_env boss refund_world)))) alice = 1000 \<and>
   balances (tokens (fst (projr (changeStateToRescue std_env boss refund_world)))) campaign_addr = 0"
proof -
  let ?r = "changeStateToRescue std_env boss refund_world"
  have w: "refund_world = run std_env [Call (CallDeposit alice DEPOSIT_FEE 100)] (deployed ledger0 tokens0 0)"
    by (simp only: refund_world_def world0_def)
  have ok: "\<not> isl ?r"
    by (simp add: scenario_defs)
  then have r: "?r = Inr (fst (projr ?r), snd (projr ?r))"
    by (cases ?r) auto
  have t: "totalDeposits (ledger refund_world) = 100 \<and>
           balances (tokens refund_world) alice = 900 \<and>
           balances (tokens refund_world) campaign_addr = 100"
    by (simp add: scenario_defs)
  have due: "refunds_due (depositors (ledger refund_world)) (deposits (ledger refund_world))
               = [(alice, 100)]"
    by (simp add: scenario_defs)
  have b: "balances (tokens (fst (projr ?r))) alice = 1000 \<and>
           balances (tokens (fst (projr ?r))) campaign_addr = 0"
    by (simp add: scenario_defs)
  from changeStateToRescue_refunds_all [OF constructor_demo w r]
  have "(\<forall>a. deposits (ledger (fst (projr ?r))) a = 0) \<and> totalDeposits (ledger (fst (projr ?r))) = 0 \<and>
         currentState (ledger (fst (projr ?r))) = Rescue \<and>
         refunded (snd (projr ?r)) = unat (totalDeposits (ledger refund_world))"
    by blast
  then show ?thesis using constructor_demo w ok t due b by simp
qed

subsection \<open>The lifecycle\<close>

text \<open>
  From one call of the contract to the next the state is unchanged or has moved along
  transitions of the lifecycle, one or, with calls back during a deposit, two.
\<close>

lemma exec_state:
  assumes "exec env c w = Inr (w', evs)"
  shows "(currentState (ledger w), currentState (ledger w')) \<in> {(s, s'). legal_transition s s'}\<^sup>*"
proof (cases c)
  case (CallDeposit s v amount)
  with assms have "deposit env s v amount w = Inr (w', evs)" by simp
  then obtain sent w1 evs1 pulled w2 evs2 d' td' where
    a1: "after_call sent w = (w1, evs1)" and
    a2: "after_call pulled w1 = (w2, evs2)" and
    w': "w' = w2\<lparr>ledger := (ledger w2)
             \<lparr>depositors := (if deposits (ledger w2) s = 0 then depositors (ledger w2) @ [s]
                              else depositors (ledger w2)),
              deposits := (deposits (ledger w2))(s := d'), totalDeposits := td'\<rparr>\<rparr>"
    by (rule deposit_success)
  have "(currentState (ledger w), currentState (ledger w2)) \<in> {(s, s'). legal_transition s s'}\<^sup>*"
    using after_call_state [OF a1] after_call_state [OF a2] by (rule rtrancl_trans)
  then show ?thesis by (simp add: w')
next
  case (CallChangeStateToLive s)
  then show ?thesis using assms
    by (auto simp: changeStateToLive_def Let_def split: if_splits)
next
  case (CallChangeStateToRescue s)
  then have "currentState (ledger w) = Graduating \<and> currentState (ledger w') = Rescue"
    using assms by (auto simp: changeStateToRescue_def Let_def split: if_splits sum.splits)
  then show ?thesis by auto
next
  case (CallChangeStateToEnded s)
  then show ?thesis using assms
    by (auto simp: changeStateToEnded_def Let_def split: if_splits)
next
  case (CallSetAllocations s users amounts)
  then show ?thesis using assms
    by (auto simp: setAllocations_def Let_def split: if_splits sum.splits)
next
  case (CallClaimTokens s)
  with assms have "claimTokens env s w = Inr (w', evs)" by simp
  then obtain sent evs1 where
    "after_call sent (w\<lparr>ledger := (ledger w)\<lparr>hasClaimed := (hasClaimed (ledger w))(s := True)\<rparr>\<rparr>)
       = (w', evs1)"
    by (rule claimTokens_success)
  from after_call_state [OF this] show ?thesis by simp
next
  case (CallRescueRemainingTokens s)
  with assms have "rescueRemainingTokens env s w = Inr (w', evs)" by simp
  then obtain sent evs1 where "after_call sent w = (w', evs1)"
    by (rule rescueRemainingTokens_success)
  from after_call_state [OF this] show ?thesis .
next
  case (CallUpdateFeeRecipient s r)
  then show ?thesis using assms
    by (auto simp: updateFeeRecipient_def Let_def split: if_splits)
next
  case (CallWithdrawEther s)
  with assms have "withdrawEther env s w = Inr (w', evs)" by simp
  then obtain sent where "after_call sent (w\<lparr>ether := 0\<rparr>) = (w', evs)"
    by (rule withdrawEther_success)
  from after_call_state [OF this] show ?thesis by simp
qed

lemma step_state:
  "(currentState (ledger w), currentState (ledger (step env a w)))
     \<in> {(s, s'). legal_transition s s'}\<^sup>*"
proof (cases a)
  case (Call c)
  show ?thesis
  proof (cases "exec env c w")
    case (Inl e)
    then show ?thesis using Call by simp
  next
    case (Inr r)
    then have "exec env c w = Inr (fst r, snd r)" by simp
    from exec_state [OF this] show ?thesis using Call Inr by (simp add: case_prod_beta)
  qed
next
  case (Outside t b)
  then show ?thesis by simp
qed

lemma run_state:
  "(currentState (ledger w), currentState (ledger (run env acts w)))
     \<in> {(s, s'). legal_transition s s'}\<^sup>*"
proof (induction acts arbitrary: w)
  case Nil
  then show ?case by simp
next
  case (Cons a acts)
  from step_state [of w env a] Cons.IH [of "step env a w"]
  show ?case by simp
qed

lemma run_stays_Ended:
  "currentState (ledger w) = Ended \<Longrightarrow> currentState (ledger (run env acts w)) = Ended"
  using run_state [of w env acts] legal_from_terminal by fastforce

text \<open>
  C5. \<open>changeStateToRescue\<close> checks the state at entry and writes \<open>Rescue\<close> after its
  refund transfers (\<open>inState(State.Graduating)\<close>, \<open>nonReentrant\<close>);
  \<open>changeStateToLive\<close> and \<open>changeStateToEnded\<close> carry no guard. With a token that
  notifies the receiver and an owner contract that has deposited, the refund to the
  owner lets it call both during \<open>changeStateToRescue\<close>: the call announces \<open>Live\<close>,
  \<open>Ended\<close>, \<open>Rescue\<close>, and \<open>Ended \<rightarrow> Rescue\<close> is not a transition of the lifecycle.
\<close>

theorem rescue_reentered_leaves_Ended:
  "currentState (ledger hooked_world) = Graduating \<and>
   depositors (ledger hooked_world) = [boss] \<and>
   \<not> isl (exec hook_env (CallChangeStateToRescue boss) hooked_world) \<and>
   snd (projr (exec hook_env (CallChangeStateToRescue boss) hooked_world))
     = [StateChanged Live, StateChanged Ended, FundsRescued boss 100, StateChanged Rescue] \<and>
   announced (snd (projr (exec hook_env (CallChangeStateToRescue boss) hooked_world)))
     = [Live, Ended, Rescue] \<and>
   \<not> legal_transition Ended Rescue \<and>
   currentState (ledger (fst (projr (exec hook_env (CallChangeStateToRescue boss) hooked_world))))
     = Rescue"
  by (simp add: scenario_defs)

subsection \<open>The depositor list\<close>

lemma deposit_list_inv:
  assumes "deposit env s v amount w = Inr (w', evs)" and "amount \<noteq> 0" and "list_inv (ledger w)"
  shows "list_inv (ledger w')"
proof -
  let ?c = "ledger w"
  from assms(1) have st: "currentState ?c = Graduating \<or> currentState ?c = Live"
    by (rule deposit_success)
  from assms(1) obtain d' td' where
    d': "checked_add (deposits ?c s) amount = Some d'" and
    w': "deposits (ledger w') = (deposits ?c)(s := d')"
        "depositors (ledger w') = (if deposits ?c s = 0 then depositors ?c @ [s]
                                   else depositors ?c)"
    by (rule deposit_effect)
  have "unat d' \<noteq> 0"
    using checked_add_unat [OF d'] assms(2) by (simp add: unat_eq_0)
  then have nz: "d' \<noteq> 0" by auto
  show ?thesis
    using assms(3) st nz by (auto simp: list_inv_def w')
qed

lemma rescue_list_inv:
  assumes "changeStateToRescue env s w = Inr (w', evs)" and "list_inv (ledger w)"
  shows "list_inv (ledger w')"
proof -
  let ?c = "ledger w"
  from assms(1) obtain w1 evs1 where
    loop: "refund_loop env (depositors ?c) w [] = Inr (w1, evs1)" and
    w': "w' = w1\<lparr>ledger := (ledger w1)\<lparr>totalDeposits := 0, currentState := Rescue\<rparr>\<rparr>"
    by (auto simp: changeStateToRescue_def Let_def split: if_splits sum.splits)
  from loop have "pay_refunds env (refunds_due (depositors ?c) (deposits ?c)) w [] = Some (w1, evs1)"
    by (simp add: refund_loop_pays split: option.splits)
  from pay_refunds_result [OF this] assms(2) show ?thesis
    by (simp add: list_inv_def w')
qed

lemma legal_to_open:
  "(s, s') \<in> {(s, s'). legal_transition s s'}\<^sup>* \<Longrightarrow> s' = Graduating \<or> s' = Live
     \<Longrightarrow> s = Graduating \<or> s = Live"
proof (induction rule: rtrancl_induct)
  case base
  then show ?case by simp
next
  case (step y z)
  then show ?case by (cases y; cases z) auto
qed

lemma exec_list_inv:
  assumes "exec env c w = Inr (w', evs)" and "positive_call c" and "list_inv (ledger w)"
  shows "list_inv (ledger w')"
proof (cases c)
  case (CallDeposit s v amount)
  then show ?thesis using assms deposit_list_inv by auto
next
  case (CallChangeStateToLive s)
  then show ?thesis using assms
    by (auto simp: changeStateToLive_def Let_def list_inv_def split: if_splits)
next
  case (CallChangeStateToRescue s)
  then show ?thesis using assms rescue_list_inv by auto
next
  case (CallChangeStateToEnded s)
  then show ?thesis using assms
    by (auto simp: changeStateToEnded_def Let_def list_inv_def split: if_splits)
next
  case (CallSetAllocations s users amounts)
  then show ?thesis using assms
    by (auto simp: setAllocations_def Let_def list_inv_def split: if_splits sum.splits)
next
  case (CallClaimTokens s)
  with assms have ok: "claimTokens env s w = Inr (w', evs)" by simp
  then obtain sent evs1 where
    e: "currentState (ledger w) = Ended" and
    a: "after_call sent (w\<lparr>ledger := (ledger w)\<lparr>hasClaimed := (hasClaimed (ledger w))(s := True)\<rparr>\<rparr>)
       = (w', evs1)"
    by (rule claimTokens_success)
  have "currentState (ledger w') = Ended"
    using after_call_state [OF a] e legal_from_terminal by fastforce
  then show ?thesis using after_call_frame [OF a] assms(3) by (simp add: list_inv_def)
next
  case (CallRescueRemainingTokens s)
  with assms have ok: "rescueRemainingTokens env s w = Inr (w', evs)" by simp
  then obtain sent evs1 where
    e: "currentState (ledger w) = Ended" and
    a: "after_call sent w = (w', evs1)"
    by (rule rescueRemainingTokens_success)
  have "currentState (ledger w') = Ended"
    using after_call_state [OF a] e legal_from_terminal by fastforce
  then show ?thesis using after_call_frame [OF a] assms(3) by (simp add: list_inv_def)
next
  case (CallUpdateFeeRecipient s r)
  then show ?thesis using assms
    by (auto simp: updateFeeRecipient_def Let_def list_inv_def split: if_splits)
next
  case (CallWithdrawEther s)
  with assms have ok: "withdrawEther env s w = Inr (w', evs)" by simp
  then obtain sent where a: "after_call sent (w\<lparr>ether := 0\<rparr>) = (w', evs)"
    by (rule withdrawEther_success)
  note f = after_call_frame [OF a]
  have "currentState (ledger w') = Graduating \<or> currentState (ledger w') = Live
          \<Longrightarrow> currentState (ledger w) = Graduating \<or> currentState (ledger w) = Live"
    using after_call_state [OF a] legal_to_open by fastforce
  then show ?thesis using f assms(3) by (auto simp: list_inv_def)
qed

lemma step_list_inv:
  "positive_action a \<Longrightarrow> list_inv (ledger w) \<Longrightarrow> list_inv (ledger (step env a w))"
proof (cases a)
  case (Call c)
  assume p: "positive_action a" and i: "list_inv (ledger w)"
  show ?thesis
  proof (cases "exec env c w")
    case (Inl e)
    then show ?thesis using i Call by simp
  next
    case (Inr r)
    then have "exec env c w = Inr (fst r, snd r)" by simp
    from exec_list_inv [OF this _ i] p Call Inr show ?thesis by (simp add: case_prod_beta)
  qed
next
  case (Outside t b)
  assume "list_inv (ledger w)"
  then show ?thesis using Outside by (simp add: list_inv_def)
qed

text \<open>As long as every deposit has a nonzero amount, the depositor list has no
  duplicates.\<close>

lemma positive_deposits_listed_once:
  assumes "constructor tt ta ow fr = Inr c0" and "list_all positive_action acts"
  shows "distinct (depositors (ledger (run env acts (deployed c0 t0 b0))))"
proof -
  have "list_inv (ledger w) \<Longrightarrow> list_inv (ledger (run env acts w))" for w
    using assms(2) by (induction acts arbitrary: w) (auto simp: step_list_inv)
  moreover have "list_inv (ledger (deployed c0 t0 b0))"
    using assms(1) by (auto simp: constructor_def deployed_def list_inv_def split: if_splits)
  ultimately show ?thesis by (simp add: list_inv_def)
qed

text \<open>
  C2. The source appends the caller whenever its recorded deposit is zero before the
  call (\<open>// Add depositor only once\<close>). A deposit of amount 0 leaves the recorded
  deposit at zero, so the next deposit of the same caller appends it again: after two
  calls \<open>deposit(0)\<close> by Alice the depositor list is \<open>[alice, alice]\<close>.
\<close>

theorem zero_deposits_list_depositor_twice:
  "\<not> isl (exec std_env (CallDeposit alice DEPOSIT_FEE 0) world0) \<and>
   depositors (ledger zero_deposits_world) = [alice, alice] \<and>
   \<not> distinct (depositors (ledger zero_deposits_world))"
  by (simp add: zero_deposits_world_def scenario_defs)

subsection \<open>Deposits of amount zero\<close>

text \<open>
  C3 (as the code has it). \<open>deposit\<close> has no precondition on the amount: in
  \<open>Graduating\<close> or \<open>Live\<close>, with exactly the fixed fee, a call with amount 0 whose fee
  forwarding and whose token pull of 0 succeed does succeed; it leaves every deposit,
  \<open>totalDeposits\<close> and the claim flags unchanged, and the contract keeps none of the
  fee: its native balance is what it was, and no deposit of amount 0 succeeds unless
  the whole value sent with it, the fixed fee, has been forwarded to the fee recipient.
\<close>

theorem deposit_zero_succeeds:
  assumes "currentState (ledger w) = Graduating \<or> currentState (ledger w) = Live"
    and "sendValue env (feeRecipient (ledger w)) DEPOSIT_FEE w = Some sent"
    and "safeTransferFrom env (this env) s (this env) 0 (fst (after_call sent w)) = Some pulled"
  shows "(\<exists>w' evs. deposit env s DEPOSIT_FEE 0 w = Inr (w', evs @ [Deposit s 0 DEPOSIT_FEE]) \<and>
           deposits (ledger w') = deposits (ledger w) \<and>
           totalDeposits (ledger w') = totalDeposits (ledger w) \<and>
           hasClaimed (ledger w') = hasClaimed (ledger w) \<and>
           ether w' = ether w \<and> tokens w' = snd pulled) \<and>
         (\<forall>v w' evs. deposit env s v 0 w = Inr (w', evs) \<longrightarrow>
            v = DEPOSIT_FEE \<and>
            (\<exists>forwarded. sendValue env (feeRecipient (ledger w)) v w = Some forwarded))"
proof (intro conjI allI impI)
  obtain w1 evs1 where a1: "after_call sent w = (w1, evs1)"
    by (cases "after_call sent w")
  obtain w2 evs2 where a2: "after_call pulled w1 = (w2, evs2)"
    by (cases "after_call pulled w1")
  note f1 = after_call_frame [OF a1] and f2 = after_call_frame [OF a2]
  have z: "checked_add x 0 = Some x" for x
    using unsigned_less [of x] by (simp add: checked_add_def)
  let ?w' = "w2\<lparr>ledger := (ledger w2)
             \<lparr>depositors := (if deposits (ledger w2) s = 0 then depositors (ledger w2) @ [s]
                              else depositors (ledger w2)),
              deposits := (deposits (ledger w2))(s := deposits (ledger w2) s),
              totalDeposits := totalDeposits (ledger w2)\<rparr>\<rparr>"
  have "deposit env s DEPOSIT_FEE 0 w = Inr (?w', (evs1 @ evs2) @ [Deposit s 0 DEPOSIT_FEE])"
    using assms a1 a2 by (simp add: deposit_def Let_def z)
  moreover have "deposits (ledger ?w') = deposits (ledger w) \<and>
           totalDeposits (ledger ?w') = totalDeposits (ledger w) \<and>
           hasClaimed (ledger ?w') = hasClaimed (ledger w) \<and>
           ether ?w' = ether w \<and> tokens ?w' = snd pulled"
    using f1 f2 by simp
  ultimately show "\<exists>w' evs. deposit env s DEPOSIT_FEE 0 w = Inr (w', evs @ [Deposit s 0 DEPOSIT_FEE]) \<and>
           deposits (ledger w') = deposits (ledger w) \<and>
           totalDeposits (ledger w') = totalDeposits (ledger w) \<and>
           hasClaimed (ledger w') = hasClaimed (ledger w) \<and>
           ether w' = ether w \<and> tokens w' = snd pulled"
    by blast
next
  fix v w' evs
  assume ok: "deposit env s v 0 w = Inr (w', evs)"
  from ok show "v = DEPOSIT_FEE" by (rule deposit_success)
  from ok obtain forwarded where "sendValue env (feeRecipient (ledger w)) v w = Some forwarded"
    by (rule deposit_success)
  then show "\<exists>forwarded. sendValue env (feeRecipient (ledger w)) v w = Some forwarded"
    by blast
qed

theorem deposit_zero_succeeds_witness:
  "currentState (ledger live_world) = Live \<and>
   sendValue std_env (feeRecipient (ledger live_world)) DEPOSIT_FEE live_world
     = Some ([], tokens live_world) \<and>
   safeTransferFrom std_env (this std_env) alice (this std_env) 0
       (fst (after_call ([], tokens live_world) live_world))
     = Some ([], tokens live_world) \<and>
   \<not> isl (deposit std_env alice DEPOSIT_FEE 0 live_world) \<and>
   totalDeposits (ledger live_world) = 150 \<and>
   totalDeposits (ledger (fst (projr (deposit std_env alice DEPOSIT_FEE 0 live_world)))) = 150 \<and>
   deposits (ledger (fst (projr (deposit std_env alice DEPOSIT_FEE 0 live_world))))
     = deposits (ledger live_world)"
proof -
  have st: "currentState (ledger live_world) = Live"
    by (simp add: scenario_defs)
  have fee: "sendValue std_env (feeRecipient (ledger live_world)) DEPOSIT_FEE live_world
               = Some ([], tokens live_world)"
    by (simp add: std_env_def)
  have pull: "safeTransferFrom std_env (this std_env) alice (this std_env) 0
                  (fst (after_call ([], tokens live_world) live_world))
                = Some ([], tokens live_world)"
    by (simp add: scenario_defs fun_eq_iff)
  have t: "totalDeposits (ledger live_world) = 150"
    by (simp add: scenario_defs)
  from deposit_zero_succeeds [OF disjI2 [OF st] fee pull] obtain w' evs where
    w': "deposit std_env alice DEPOSIT_FEE 0 live_world = Inr (w', evs @ [Deposit alice 0 DEPOSIT_FEE])"
      "deposits (ledger w') = deposits (ledger live_world)"
      "totalDeposits (ledger w') = totalDeposits (ledger live_world)"
    by blast
  show ?thesis using st fee pull t w' by simp
qed

text \<open>C3 as stated fails: with the standard token, \<open>deposit(0)\<close> right after deployment does
  not revert, and the depositor list is not what it was.\<close>

theorem zero_deposit_not_rejected:
  "\<not> isl (deposit std_env alice DEPOSIT_FEE 0 world0) \<and>
   depositors (ledger (step std_env (Call (CallDeposit alice DEPOSIT_FEE 0)) world0))
     \<noteq> depositors (ledger world0)"
  by (simp add: scenario_defs)

subsection \<open>Allocations\<close>

lemma allocation_loop_total:
  "allocation_loop ps allocs acc evs = Inr (allocs', acc', evs') \<Longrightarrow>
     unat acc' = unat acc + sum_list (map unat (map snd ps))"
proof (induction ps arbitrary: allocs acc evs)
  case Nil
  then show ?case by simp
next
  case (Cons p ps)
  obtain u a where p: "p = (u, a)" by (cases p)
  from Cons.prems p obtain t1 where
    t1: "checked_add acc a = Some t1" and
    rec: "allocation_loop ps (allocs(u := a)) t1 (evs @ [AllocationsSet u a]) = Inr (allocs', acc', evs')"
    by (auto split: option.splits)
  from Cons.IH [OF rec] checked_add_unat [OF t1] show ?case by (simp add: p)
qed

lemma allocation_loop_fits:
  "unat acc + sum_list (map unat (map snd ps)) < 2 ^ 256 \<Longrightarrow>
     \<not> isl (allocation_loop ps allocs acc evs)"
proof (induction ps arbitrary: allocs acc evs)
  case Nil
  then show ?case by simp
next
  case (Cons p ps)
  obtain u a where p: "p = (u, a)" by (cases p)
  from Cons.prems p have fit: "unat acc + unat a < 2 ^ 256" by simp
  then have t1: "checked_add acc a = Some (acc + a)" by (simp add: checked_add_def)
  from checked_add_unat [OF t1] Cons.prems p
  have "unat (acc + a) + sum_list (map unat (map snd ps)) < 2 ^ 256" by simp
  from Cons.IH [OF this] show ?case by (simp add: p t1)
qed

lemma allocation_loop_error:
  "allocation_loop ps allocs acc evs = Inl e \<Longrightarrow>
     e = ArithmeticOverflow \<and> 2 ^ 256 \<le> unat acc + sum_list (map unat (map snd ps))"
proof (induction ps arbitrary: allocs acc evs)
  case Nil
  then show ?case by simp
next
  case (Cons p ps)
  obtain u a where p: "p = (u, a)" by (cases p)
  show ?case
  proof (cases "checked_add acc a")
    case None
    then have "2 ^ 256 \<le> unat acc + unat a"
      by (simp add: checked_add_def split: if_splits)
    then show ?thesis using Cons.prems None p by simp
  next
    case (Some t1)
    with Cons.prems p have
      rec: "allocation_loop ps (allocs(u := a)) t1 (evs @ [AllocationsSet u a]) = Inl e"
      by simp
    from Cons.IH [OF rec] checked_add_unat [OF Some] show ?thesis by (simp add: p)
  qed
qed

lemma allocation_loop_overflows:
  "2 ^ 256 \<le> unat acc + sum_list (map unat (map snd ps)) \<Longrightarrow>
     allocation_loop ps allocs acc evs = Inl ArithmeticOverflow"
proof (cases "allocation_loop ps allocs acc evs")
  case (Inl e)
  assume "2 ^ 256 \<le> unat acc + sum_list (map unat (map snd ps))"
  from allocation_loop_error [OF Inl] Inl show ?thesis by simp
next
  case (Inr r)
  assume big: "2 ^ 256 \<le> unat acc + sum_list (map unat (map snd ps))"
  obtain allocs' acc' evs' where r: "r = (allocs', acc', evs')" by (cases r)
  from allocation_loop_total [OF Inr [unfolded r]]
  have "unat acc' = unat acc + sum_list (map unat (map snd ps))" .
  moreover have "unat acc' < 2 ^ 256" using unsigned_less [of acc'] by simp
  ultimately show ?thesis using big by simp
qed

text \<open>
  C1 (as the code has it). Every \<open>setAllocations\<close> call adds up the amounts passed in
  that call only, starting from zero; allocations committed by earlier calls are not
  counted. A call that succeeds has a sum of at most \<open>totalDeposits\<close>, which it does not
  change; a call by the owner in \<open>Ended\<close> with lists of equal length succeeds whenever
  its sum is at most \<open>totalDeposits\<close>, fails with \<open>AllocationExceedsDeposits\<close> when its
  sum is larger (with an arithmetic panic when the sum does not fit 256 bits), and then
  commits nothing.
\<close>

theorem setAllocations_bounds_batch_sum:
  "(setAllocations s users amounts w = Inr (w', evs) \<longrightarrow>
      sum_list (map unat amounts) \<le> unat (totalDeposits (ledger w)) \<and>
      totalDeposits (ledger w') = totalDeposits (ledger w)) \<and>
   (s = owner (ledger w) \<and> currentState (ledger w) = Ended \<and> length users = length amounts \<and>
    sum_list (map unat amounts) \<le> unat (totalDeposits (ledger w)) \<longrightarrow>
      \<not> isl (setAllocations s users amounts w)) \<and>
   (s = owner (ledger w) \<and> currentState (ledger w) = Ended \<and> length users = length amounts \<and>
    unat (totalDeposits (ledger w)) < sum_list (map unat amounts) \<and>
    sum_list (map unat amounts) < 2 ^ 256 \<longrightarrow>
      setAllocations s users amounts w = Inl AllocationExceedsDeposits \<and>
      step env (Call (CallSetAllocations s users amounts)) w = w) \<and>
   (s = owner (ledger w) \<and> currentState (ledger w) = Ended \<and> length users = length amounts \<and>
    2 ^ 256 \<le> sum_list (map unat amounts) \<longrightarrow>
      setAllocations s users amounts w = Inl ArithmeticOverflow \<and>
      step env (Call (CallSetAllocations s users amounts)) w = w)"
proof (intro conjI impI)
  assume ok: "setAllocations s users amounts w = Inr (w', evs)"
  then obtain allocs' acc' where
    len: "length users = length amounts" and
    loop: "allocation_loop (zip users amounts) (allocations (ledger w)) 0 [] = Inr (allocs', acc', evs)" and
    le: "acc' \<le> totalDeposits (ledger w)" and
    w': "w' = w\<lparr>ledger := (ledger w)\<lparr>allocations := allocs'\<rparr>\<rparr>"
    by (auto simp: setAllocations_def Let_def split: if_splits sum.splits)
  from allocation_loop_total [OF loop] len
  have "unat acc' = sum_list (map unat amounts)" by simp
  then show "sum_list (map unat amounts) \<le> unat (totalDeposits (ledger w))"
    using le by (simp add: word_le_nat_alt)
  show "totalDeposits (ledger w') = totalDeposits (ledger w)"
    by (simp add: w')
next
  assume h: "s = owner (ledger w) \<and> currentState (ledger w) = Ended \<and> length users = length amounts \<and>
    sum_list (map unat amounts) \<le> unat (totalDeposits (ledger w))"
  have "unat (totalDeposits (ledger w)) < 2 ^ 256"
    using unsigned_less [of "totalDeposits (ledger w)"] by simp
  with h have fit: "unat (0::uint256) + sum_list (map unat (map snd (zip users amounts))) < 2 ^ 256"
    by simp
  from allocation_loop_fits [OF fit, of "allocations (ledger w)" "[]"] obtain allocs' acc' evs' where
    loop: "allocation_loop (zip users amounts) (allocations (ledger w)) 0 [] = Inr (allocs', acc', evs')"
    by (cases "allocation_loop (zip users amounts) (allocations (ledger w)) 0 []") auto
  from allocation_loop_total [OF loop] h
  have "unat acc' \<le> unat (totalDeposits (ledger w))" by simp
  then have "acc' \<le> totalDeposits (ledger w)" by (simp add: word_le_nat_alt)
  then show "\<not> isl (setAllocations s users amounts w)"
    using h loop by (simp add: setAllocations_def Let_def)
next
  assume h: "s = owner (ledger w) \<and> currentState (ledger w) = Ended \<and> length users = length amounts \<and>
    unat (totalDeposits (ledger w)) < sum_list (map unat amounts) \<and>
    sum_list (map unat amounts) < 2 ^ 256"
  then have fit: "unat (0::uint256) + sum_list (map unat (map snd (zip users amounts))) < 2 ^ 256"
    by simp
  from allocation_loop_fits [OF fit, of "allocations (ledger w)" "[]"] obtain allocs' acc' evs' where
    loop: "allocation_loop (zip users amounts) (allocations (ledger w)) 0 [] = Inr (allocs', acc', evs')"
    by (cases "allocation_loop (zip users amounts) (allocations (ledger w)) 0 []") auto
  from allocation_loop_total [OF loop] h
  have "unat (totalDeposits (ledger w)) < unat acc'" by simp
  then have "\<not> acc' \<le> totalDeposits (ledger w)" by (simp add: word_le_nat_alt)
  then show r: "setAllocations s users amounts w = Inl AllocationExceedsDeposits"
    using h loop by (simp add: setAllocations_def Let_def)
  then show "step env (Call (CallSetAllocations s users amounts)) w = w" by simp
next
  assume h: "s = owner (ledger w) \<and> currentState (ledger w) = Ended \<and> length users = length amounts \<and>
    2 ^ 256 \<le> sum_list (map unat amounts)"
  then have big: "2 ^ 256 \<le> unat (0::uint256) + sum_list (map unat (map snd (zip users amounts)))"
    by simp
  from allocation_loop_overflows [OF big]
  show r: "setAllocations s users amounts w = Inl ArithmeticOverflow"
    using h by (simp add: setAllocations_def Let_def)
  then show "step env (Call (CallSetAllocations s users amounts)) w = w" by simp
qed

theorem setAllocations_bounds_batch_sum_witness:
  "\<not> isl (setAllocations boss [alice, bob] [100, 40] ended_world) \<and>
   totalDeposits (ledger ended_world) = 150 \<and>
   setAllocations boss [alice, bob] [100, 60] allocated_world = Inl AllocationExceedsDeposits \<and>
   step std_env (Call (CallSetAllocations boss [alice, bob] [100, 60])) allocated_world = allocated_world \<and>
   allocations (ledger allocated_world) alice = 100 \<and>
   allocations (ledger allocated_world) bob = 40"
proof -
  have e: "boss = owner (ledger ended_world) \<and> currentState (ledger ended_world) = Ended \<and>
           totalDeposits (ledger ended_world) = 150"
    by (simp add: scenario_defs)
  have a: "boss = owner (ledger allocated_world) \<and> currentState (ledger allocated_world) = Ended \<and>
           totalDeposits (ledger allocated_world) = 150 \<and>
           allocations (ledger allocated_world) alice = 100 \<and>
           allocations (ledger allocated_world) bob = 40"
    by (simp add: allocated_world_def scenario_defs)
  have 1: "\<not> isl (setAllocations boss [alice, bob] [100, 40] ended_world)"
    using setAllocations_bounds_batch_sum [of boss "[alice, bob]" "[100, 40]" ended_world ended_world "[]" std_env] e
    by simp
  have 2: "setAllocations boss [alice, bob] [100, 60] allocated_world = Inl AllocationExceedsDeposits \<and>
     step std_env (Call (CallSetAllocations boss [alice, bob] [100, 60])) allocated_world = allocated_world"
    using setAllocations_bounds_batch_sum [of boss "[alice, bob]" "[100, 60]" allocated_world ended_world "[]" std_env] a
    by (simp del: step.simps)
  show ?thesis using 1 2 e a by blast
qed

lemma sum_allocations_two:
  "a \<noteq> b \<Longrightarrow> unat (allocations c a) + unat (allocations c b) \<le> sum_allocations c"
proof -
  assume ab: "a \<noteq> b"
  have "(\<Sum>x\<in>{a, b}. unat (allocations c x)) \<le> (\<Sum>x\<in>UNIV. unat (allocations c x))"
    by (rule sum_mono2) auto
  then show ?thesis using ab by (simp add: sum_allocations_def)
qed

text \<open>C1 as stated fails: with \<open>totalDeposits = 150\<close>, a call allocating 100 to Alice and a
  second call allocating 100 to Bob both succeed, and the allocations then sum to more
  than \<open>totalDeposits\<close>.\<close>

theorem two_batches_exceed_totalDeposits:
  "\<not> isl (exec std_env (CallSetAllocations boss [bob] [100])
            (run std_env [Call (CallSetAllocations boss [alice] [100])] ended_world)) \<and>
   \<not> sum_allocations (ledger two_batches_world) \<le> unat (totalDeposits (ledger two_batches_world))"
proof -
  have 1: "\<not> isl (exec std_env (CallSetAllocations boss [bob] [100])
            (run std_env [Call (CallSetAllocations boss [alice] [100])] ended_world))"
    by (simp add: scenario_defs)
  have v: "allocations (ledger two_batches_world) alice = 100 \<and>
           allocations (ledger two_batches_world) bob = 100 \<and>
           totalDeposits (ledger two_batches_world) = 150"
    by (simp add: two_batches_world_def scenario_defs)
  have "unat (allocations (ledger two_batches_world) alice) + unat (allocations (ledger two_batches_world) bob)
          \<le> sum_allocations (ledger two_batches_world)"
    by (rule sum_allocations_two) simp
  then have "\<not> sum_allocations (ledger two_batches_world) \<le> unat (totalDeposits (ledger two_batches_world))"
    using v by simp
  then show ?thesis using 1 by blast
qed

subsection \<open>Claims\<close>

lemma exec_hasClaimed:
  assumes "exec env c w = Inr (w', evs)" and "hasClaimed (ledger w) a"
  shows "hasClaimed (ledger w') a"
proof (cases c)
  case (CallDeposit s v amount)
  with assms have "deposit env s v amount w = Inr (w', evs)" by simp
  then have "hasClaimed (ledger w') = hasClaimed (ledger w)"
    by (rule deposit_effect)
  then show ?thesis using assms(2) by simp
next
  case (CallChangeStateToLive s)
  then show ?thesis using assms
    by (auto simp: changeStateToLive_def Let_def split: if_splits)
next
  case (CallChangeStateToRescue s)
  with assms obtain w1 evs1 where
    loop: "refund_loop env (depositors (ledger w)) w [] = Inr (w1, evs1)" and
    w': "w' = w1\<lparr>ledger := (ledger w1)\<lparr>totalDeposits := 0, currentState := Rescue\<rparr>\<rparr>"
    by (auto simp: changeStateToRescue_def Let_def split: if_splits sum.splits)
  from loop have
    "pay_refunds env (refunds_due (depositors (ledger w)) (deposits (ledger w))) w []
       = Some (w1, evs1)"
    by (simp add: refund_loop_pays split: option.splits)
  from pay_refunds_result [OF this] assms(2) show ?thesis by (simp add: w')
next
  case (CallChangeStateToEnded s)
  then show ?thesis using assms
    by (auto simp: changeStateToEnded_def Let_def split: if_splits)
next
  case (CallSetAllocations s users amounts)
  then show ?thesis using assms
    by (auto simp: setAllocations_def Let_def split: if_splits sum.splits)
next
  case (CallClaimTokens s)
  with assms have "claimTokens env s w = Inr (w', evs)" by simp
  then obtain sent evs1 where
    "after_call sent (w\<lparr>ledger := (ledger w)\<lparr>hasClaimed := (hasClaimed (ledger w))(s := True)\<rparr>\<rparr>)
       = (w', evs1)"
    by (rule claimTokens_success)
  from after_call_frame [OF this] assms(2) show ?thesis by simp
next
  case (CallRescueRemainingTokens s)
  with assms have "rescueRemainingTokens env s w = Inr (w', evs)" by simp
  then obtain sent evs1 where "after_call sent w = (w', evs1)"
    by (rule rescueRemainingTokens_success)
  from after_call_frame [OF this] assms(2) show ?thesis by simp
next
  case (CallUpdateFeeRecipient s r)
  then show ?thesis using assms
    by (auto simp: updateFeeRecipient_def Let_def split: if_splits)
next
  case (CallWithdrawEther s)
  with assms have "withdrawEther env s w = Inr (w', evs)" by simp
  then obtain sent where "after_call sent (w\<lparr>ether := 0\<rparr>) = (w', evs)"
    by (rule withdrawEther_success)
  from after_call_frame [OF this] assms(2) show ?thesis by simp
qed

lemma step_hasClaimed: "hasClaimed (ledger w) a \<Longrightarrow> hasClaimed (ledger (step env x w)) a"
proof (cases x)
  case (Call c)
  assume h: "hasClaimed (ledger w) a"
  show ?thesis
  proof (cases "exec env c w")
    case (Inl e)
    then show ?thesis using h Call by simp
  next
    case (Inr r)
    then have "exec env c w = Inr (fst r, snd r)" by simp
    from exec_hasClaimed [OF this h] show ?thesis using Call Inr by (simp add: case_prod_beta)
  qed
next
  case (Outside t b)
  assume "hasClaimed (ledger w) a"
  then show ?thesis using Outside by simp
qed

lemma run_hasClaimed: "hasClaimed (ledger w) a \<Longrightarrow> hasClaimed (ledger (run env acts w)) a"
  by (induction acts arbitrary: w) (auto simp: step_hasClaimed)

lemma claimTokens_claimed_fails: "hasClaimed (ledger w) s \<Longrightarrow> isl (claimTokens env s w)"
  by (simp add: claimTokens_def Let_def)

text \<open>
  C6 (as the code has it). \<open>claimTokens\<close> fails outside \<open>Ended\<close>; in \<open>Ended\<close> it fails
  with \<open>NoTokensAllocated\<close> when the caller's allocation is zero and, the allocation
  being nonzero, with \<open>AlreadyClaimed\<close> when the caller's claim flag is set. A
  successful claim sets the flag and transfers the allocation; after it, and after any
  further operations, every call of the same caller fails and changes nothing, with
  \<open>AlreadyClaimed\<close> as long as the caller's allocation is nonzero: a caller claims at
  most once.
\<close>

theorem claimTokens_at_most_once:
  "(currentState (ledger w) \<noteq> Ended \<longrightarrow> claimTokens env s w = Inl InvalidState) \<and>
   (currentState (ledger w) = Ended \<and> allocations (ledger w) s = 0 \<longrightarrow>
      claimTokens env s w = Inl NoTokensAllocated) \<and>
   (currentState (ledger w) = Ended \<and> allocations (ledger w) s \<noteq> 0 \<and> hasClaimed (ledger w) s \<longrightarrow>
      claimTokens env s w = Inl AlreadyClaimed) \<and>
   (claimTokens env s w = Inr (w', evs) \<longrightarrow>
      (\<exists>sent evs1.
         safeTransfer env (this env) s (allocations (ledger w) s)
           (w\<lparr>ledger := (ledger w)\<lparr>hasClaimed := (hasClaimed (ledger w))(s := True)\<rparr>\<rparr>)
           = Some sent \<and>
         tokens w' = snd sent \<and>
         evs = evs1 @ [TokensClaimed s (allocations (ledger w) s)]) \<and>
      hasClaimed (ledger w') s \<and>
      hasClaimed (ledger (run env acts w')) s \<and>
      isl (claimTokens env s (run env acts w')) \<and>
      step env (Call (CallClaimTokens s)) (run env acts w') = run env acts w' \<and>
      (allocations (ledger (run env acts w')) s \<noteq> 0 \<longrightarrow>
         claimTokens env s (run env acts w') = Inl AlreadyClaimed))"
proof (intro conjI impI)
  show "currentState (ledger w) \<noteq> Ended \<Longrightarrow> claimTokens env s w = Inl InvalidState"
    by (simp add: claimTokens_def Let_def)
  show "currentState (ledger w) = Ended \<and> allocations (ledger w) s = 0 \<Longrightarrow>
      claimTokens env s w = Inl NoTokensAllocated"
    by (simp add: claimTokens_def Let_def)
  show "currentState (ledger w) = Ended \<and> allocations (ledger w) s \<noteq> 0 \<and> hasClaimed (ledger w) s \<Longrightarrow>
      claimTokens env s w = Inl AlreadyClaimed"
    by (simp add: claimTokens_def Let_def word_greater_zero_iff)
  assume ok: "claimTokens env s w = Inr (w', evs)"
  let ?w0 = "w\<lparr>ledger := (ledger w)\<lparr>hasClaimed := (hasClaimed (ledger w))(s := True)\<rparr>\<rparr>"
  from ok obtain sent evs1 where
    e: "currentState (ledger w) = Ended" and
    tr: "safeTransfer env (this env) s (allocations (ledger w) s) ?w0 = Some sent" and
    ac: "after_call sent ?w0 = (w', evs1)" and
    evs: "evs = evs1 @ [TokensClaimed s (allocations (ledger w) s)]"
    by (rule claimTokens_success)
  note f = after_call_frame [OF ac]
  show "\<exists>sent evs1.
         safeTransfer env (this env) s (allocations (ledger w) s) ?w0 = Some sent \<and>
         tokens w' = snd sent \<and>
         evs = evs1 @ [TokensClaimed s (allocations (ledger w) s)]"
    using tr f evs by blast
  show c: "hasClaimed (ledger w') s"
    using f by simp
  show later: "hasClaimed (ledger (run env acts w')) s"
    using c by (rule run_hasClaimed)
  then show l: "isl (claimTokens env s (run env acts w'))"
    by (rule claimTokens_claimed_fails)
  then show "step env (Call (CallClaimTokens s)) (run env acts w') = run env acts w'"
    by (cases "claimTokens env s (run env acts w')") auto
  have "currentState (ledger w') = Ended"
    using after_call_state [OF ac] e legal_from_terminal by fastforce
  then have e': "currentState (ledger (run env acts w')) = Ended"
    by (rule run_stays_Ended)
  assume "allocations (ledger (run env acts w')) s \<noteq> 0"
  then show "claimTokens env s (run env acts w') = Inl AlreadyClaimed"
    using e' later by (simp add: claimTokens_def Let_def word_greater_zero_iff)
qed

theorem claimTokens_at_most_once_witness:
  "\<not> isl (claimTokens std_env alice allocated_world) \<and>
   balances (tokens (fst (projr (claimTokens std_env alice allocated_world)))) alice = 950 \<and>
   hasClaimed (ledger (fst (projr (claimTokens std_env alice allocated_world)))) alice \<and>
   allocations (ledger (fst (projr (claimTokens std_env alice allocated_world)))) alice = 100 \<and>
   claimTokens std_env alice (fst (projr (claimTokens std_env alice allocated_world)))
     = Inl AlreadyClaimed \<and>
   claimTokens std_env boss allocated_world = Inl NoTokensAllocated \<and>
   claimTokens std_env alice world0 = Inl InvalidState"
proof -
  let ?r = "claimTokens std_env alice allocated_world"
  have ok: "\<not> isl ?r"
    by (simp add: scenario_defs)
  then have r: "?r = Inr (fst (projr ?r), snd (projr ?r))"
    by (cases ?r) auto
  have b: "balances (tokens (fst (projr ?r))) alice = 950 \<and>
           allocations (ledger (fst (projr ?r))) alice = 100"
    by (simp add: scenario_defs)
  then have nz: "allocations (ledger (run std_env [] (fst (projr ?r)))) alice \<noteq> 0"
    by simp
  have s0: "currentState (ledger world0) \<noteq> Ended"
    by (simp add: scenario_defs)
  have s1: "currentState (ledger allocated_world) = Ended \<and> allocations (ledger allocated_world) boss = 0"
    by (simp add: scenario_defs)
  note th = claimTokens_at_most_once [of allocated_world std_env alice "fst (projr ?r)" "snd (projr ?r)" "[]"]
  note th0 = claimTokens_at_most_once [of world0 std_env alice world0 "[]" "[]"]
  note th1 = claimTokens_at_most_once [of allocated_world std_env boss world0 "[]" "[]"]
  have 1: "hasClaimed (ledger (fst (projr ?r))) alice"
    using th r by blast
  have "claimTokens std_env alice (run std_env [] (fst (projr ?r))) = Inl AlreadyClaimed"
    using th r nz by blast
  then have again: "claimTokens std_env alice (fst (projr ?r)) = Inl AlreadyClaimed"
    by simp
  have 2: "claimTokens std_env boss allocated_world = Inl NoTokensAllocated"
    using th1 s1 by blast
  have 3: "claimTokens std_env alice world0 = Inl InvalidState"
    using th0 s0 by blast
  show ?thesis using ok b 1 again 2 3 by blast
qed

text \<open>C6 as stated fails: after Alice has claimed and the owner has set her allocation to
  0, her claim flag is set, and her next call fails with \<open>NoTokensAllocated\<close>, not with
  \<open>AlreadyClaimed\<close>.\<close>

theorem claim_after_reset_not_AlreadyClaimed:
  "currentState (ledger reset_world) = Ended \<and>
   hasClaimed (ledger reset_world) alice \<and>
   claimTokens std_env alice reset_world = Inl NoTokensAllocated \<and>
   claimTokens std_env alice reset_world \<noteq> Inl AlreadyClaimed"
  by (simp add: scenario_defs)

text \<open>
  C9. \<open>setAllocations\<close> asks nothing about the listed identities: for any identity \<open>u\<close>,
  deposited or not, listed as depositor or not, the owner's call in \<open>Ended\<close> with a
  nonzero amount within \<open>totalDeposits\<close> commits the allocation, and \<open>claimTokens\<close> by
  \<open>u\<close> then succeeds and transfers that amount to \<open>u\<close>, provided \<open>u\<close> has not claimed
  before and the token transfer goes through.
\<close>

theorem allocation_needs_no_deposit:
  assumes "s = owner (ledger w)" and "currentState (ledger w) = Ended"
    and "amount \<le> totalDeposits (ledger w)" and "amount \<noteq> 0"
    and "\<not> hasClaimed (ledger w) u"
    and "safeTransfer env (this env) u amount
           (w\<lparr>ledger := (ledger w)\<lparr>allocations := (allocations (ledger w))(u := amount),
                                    hasClaimed := (hasClaimed (ledger w))(u := True)\<rparr>\<rparr>)
           = Some sent"
  shows "setAllocations s [u] [amount] w
           = Inr (w\<lparr>ledger := (ledger w)\<lparr>allocations := (allocations (ledger w))(u := amount)\<rparr>\<rparr>,
                  [AllocationsSet u amount]) \<and>
         claimTokens env u
             (w\<lparr>ledger := (ledger w)\<lparr>allocations := (allocations (ledger w))(u := amount)\<rparr>\<rparr>)
           = Inr (fst (after_call sent
                        (w\<lparr>ledger := (ledger w)
                             \<lparr>allocations := (allocations (ledger w))(u := amount),
                              hasClaimed := (hasClaimed (ledger w))(u := True)\<rparr>\<rparr>)),
                  snd (after_call sent
                        (w\<lparr>ledger := (ledger w)
                             \<lparr>allocations := (allocations (ledger w))(u := amount),
                              hasClaimed := (hasClaimed (ledger w))(u := True)\<rparr>\<rparr>))
                    @ [TokensClaimed u amount]) \<and>
         tokens (fst (after_call sent
                        (w\<lparr>ledger := (ledger w)
                             \<lparr>allocations := (allocations (ledger w))(u := amount),
                              hasClaimed := (hasClaimed (ledger w))(u := True)\<rparr>\<rparr>)))
           = snd sent \<and>
         hasClaimed (ledger (fst (after_call sent
                        (w\<lparr>ledger := (ledger w)
                             \<lparr>allocations := (allocations (ledger w))(u := amount),
                              hasClaimed := (hasClaimed (ledger w))(u := True)\<rparr>\<rparr>)))) u"
proof -
  let ?w0 = "w\<lparr>ledger := (ledger w)\<lparr>allocations := (allocations (ledger w))(u := amount),
                                    hasClaimed := (hasClaimed (ledger w))(u := True)\<rparr>\<rparr>"
  have z: "checked_add 0 x = Some x" for x
    using unsigned_less [of x] by (simp add: checked_add_def)
  obtain w1 evs1 where ac: "after_call sent ?w0 = (w1, evs1)"
    by (cases "after_call sent ?w0")
  note f = after_call_frame [OF ac]
  have 1: "setAllocations s [u] [amount] w
           = Inr (w\<lparr>ledger := (ledger w)\<lparr>allocations := (allocations (ledger w))(u := amount)\<rparr>\<rparr>,
                  [AllocationsSet u amount])"
    using assms by (simp add: setAllocations_def Let_def z)
  have 2: "claimTokens env u
             (w\<lparr>ledger := (ledger w)\<lparr>allocations := (allocations (ledger w))(u := amount)\<rparr>\<rparr>)
           = Inr (w1, evs1 @ [TokensClaimed u amount])"
    using assms ac by (simp add: claimTokens_def Let_def word_greater_zero_iff)
  show ?thesis using 1 2 f by (simp add: ac)
qed

theorem allocation_needs_no_deposit_witness:
  "boss = owner (ledger ended_world) \<and> currentState (ledger ended_world) = Ended \<and>
   (100 :: uint256) \<le> totalDeposits (ledger ended_world) \<and>
   bob \<notin> set (depositors (ledger ended_world)) \<and> deposits (ledger ended_world) bob = 0 \<and>
   \<not> hasClaimed (ledger ended_world) bob \<and>
   balances (tokens ended_world) bob = 1000 \<and>
   \<not> isl (setAllocations boss [bob] [100] ended_world) \<and>
   \<not> isl (claimTokens std_env bob bob_allocated_world) \<and>
   balances (tokens (fst (projr (claimTokens std_env bob bob_allocated_world)))) bob = 1100"
proof -
  let ?w0 = "ended_world\<lparr>ledger := (ledger ended_world)
               \<lparr>allocations := (allocations (ledger ended_world))(bob := 100),
                hasClaimed := (hasClaimed (ledger ended_world))(bob := True)\<rparr>\<rparr>"
  let ?sent = "the (safeTransfer std_env (this std_env) bob 100 ?w0)"
  have pre: "boss = owner (ledger ended_world)" "currentState (ledger ended_world) = Ended"
    "(100 :: uint256) \<le> totalDeposits (ledger ended_world)" "(100 :: uint256) \<noteq> 0"
    "\<not> hasClaimed (ledger ended_world) bob"
    by (simp_all add: scenario_defs)
  have more: "bob \<notin> set (depositors (ledger ended_world)) \<and> deposits (ledger ended_world) bob = 0 \<and>
    balances (tokens ended_world) bob = 1000"
    by (simp add: scenario_defs)
  have tr: "safeTransfer std_env (this std_env) bob 100 ?w0 = Some ?sent"
    by (simp add: scenario_defs)
  note th = allocation_needs_no_deposit [OF pre tr]
  have w1: "bob_allocated_world
              = ended_world\<lparr>ledger := (ledger ended_world)
                    \<lparr>allocations := (allocations (ledger ended_world))(bob := 100)\<rparr>\<rparr>"
    using th by (simp add: bob_allocated_world_def)
  have 1: "\<not> isl (setAllocations boss [bob] [100] ended_world)"
    using th by simp
  have 2: "\<not> isl (claimTokens std_env bob bob_allocated_world)"
    using th by (simp add: w1)
  have "tokens (fst (projr (claimTokens std_env bob bob_allocated_world))) = snd ?sent"
    using th by (simp add: w1)
  then have 3: "balances (tokens (fst (projr (claimTokens std_env bob bob_allocated_world)))) bob = 1100"
    by (simp add: scenario_defs)
  show ?thesis using pre more 1 2 3 by blast
qed

subsection \<open>The residual sweep\<close>

lemma allocated_loop_total:
  "allocated_loop ds allocs acc = Some r \<Longrightarrow>
     unat r = unat acc + sum_list (map (\<lambda>d. unat (allocs d)) ds)"
proof (induction ds arbitrary: acc)
  case Nil
  then show ?case by simp
next
  case (Cons d ds)
  from Cons.prems obtain t1 where
    t1: "checked_add acc (allocs d) = Some t1" and
    rec: "allocated_loop ds allocs t1 = Some r"
    by (auto split: option.splits)
  from Cons.IH [OF rec] checked_add_unat [OF t1] show ?case by simp
qed

text \<open>
  C10. A successful \<open>rescueRemainingTokens\<close> transfers to the owner the contract's token
  balance minus the sum of the allocations of the entries of the depositor list, and
  nothing else enters that sum. So with Alice's 150 tokens deposited and 100 allocated
  to Bob, who is not in the depositor list and has not claimed, the sum is 0, the owner
  receives all 150 tokens, and Bob's claim of his allocation then fails for lack of
  tokens.
\<close>

theorem rescueRemainingTokens_sums_listed_only:
  "(rescueRemainingTokens env s w = Inr (w', evs) \<longrightarrow>
      (\<exists>bal remaining sent evs1.
         balanceOf env (this env) (tokens w) = Some bal \<and>
         sum_list (map (\<lambda>d. unat (allocations (ledger w) d)) (depositors (ledger w))) < unat bal \<and>
         unat remaining
           = unat bal - sum_list (map (\<lambda>d. unat (allocations (ledger w) d)) (depositors (ledger w))) \<and>
         safeTransfer env (this env) (owner (ledger w)) remaining w = Some sent \<and>
         after_call sent w = (w', evs1) \<and>
         tokens w' = snd sent \<and>
         evs = evs1 @ [RemainingTokensRescued remaining])) \<and>
   bob \<notin> set (depositors (ledger bob_allocated_world)) \<and>
   allocations (ledger bob_allocated_world) bob = 100 \<and>
   \<not> hasClaimed (ledger bob_allocated_world) bob \<and>
   balances (tokens bob_allocated_world) campaign_addr = 150 \<and>
   exec std_env (CallRescueRemainingTokens boss) bob_allocated_world
     = Inr (swept_world, [RemainingTokensRescued 150]) \<and>
   ledger swept_world = ledger bob_allocated_world \<and>
   balances (tokens swept_world) boss = 150 \<and>
   balances (tokens swept_world) campaign_addr = 0 \<and>
   allocations (ledger swept_world) bob = 100 \<and>
   \<not> hasClaimed (ledger swept_world) bob \<and>
   claimTokens std_env bob swept_world = Inl TokenCallFailed"
proof (intro conjI impI)
  assume ok: "rescueRemainingTokens env s w = Inr (w', evs)"
  then obtain acc bal sent evs1 where
    loop: "allocated_loop (depositors (ledger w)) (allocations (ledger w)) 0 = Some acc" and
    bal: "balanceOf env (this env) (tokens w) = Some bal" and
    gt: "acc < bal" and
    tr: "safeTransfer env (this env) (owner (ledger w)) (bal - acc) w = Some sent" and
    ac: "after_call sent w = (w', evs1)" and
    evs: "evs = evs1 @ [RemainingTokensRescued (bal - acc)]"
    by (rule rescueRemainingTokens_success)
  from allocated_loop_total [OF loop]
  have acc: "unat acc = sum_list (map (\<lambda>d. unat (allocations (ledger w) d)) (depositors (ledger w)))"
    by simp
  have lt: "unat acc < unat bal" using gt by (simp add: word_less_nat_alt)
  have sub: "unat (bal - acc) = unat bal - unat acc"
    using gt by (simp add: unat_sub word_le_nat_alt word_less_nat_alt)
  have tk: "tokens w' = snd sent" using after_call_frame [OF ac] by simp
  have "balanceOf env (this env) (tokens w) = Some bal \<and>
         sum_list (map (\<lambda>d. unat (allocations (ledger w) d)) (depositors (ledger w))) < unat bal \<and>
         unat (bal - acc)
           = unat bal - sum_list (map (\<lambda>d. unat (allocations (ledger w) d)) (depositors (ledger w))) \<and>
         safeTransfer env (this env) (owner (ledger w)) (bal - acc) w = Some sent \<and>
         after_call sent w = (w', evs1) \<and>
         tokens w' = snd sent \<and>
         evs = evs1 @ [RemainingTokensRescued (bal - acc)]"
    using bal lt sub tr ac tk evs acc by simp
  then show "\<exists>bal remaining sent evs1.
         balanceOf env (this env) (tokens w) = Some bal \<and>
         sum_list (map (\<lambda>d. unat (allocations (ledger w) d)) (depositors (ledger w))) < unat bal \<and>
         unat remaining
           = unat bal - sum_list (map (\<lambda>d. unat (allocations (ledger w) d)) (depositors (ledger w))) \<and>
         safeTransfer env (this env) (owner (ledger w)) remaining w = Some sent \<and>
         after_call sent w = (w', evs1) \<and>
         tokens w' = snd sent \<and>
         evs = evs1 @ [RemainingTokensRescued remaining]"
    by blast
next
  show "bob \<notin> set (depositors (ledger bob_allocated_world))"
    by (simp add: scenario_defs)
  show "allocations (ledger bob_allocated_world) bob = 100"
    by (simp add: scenario_defs)
  show "\<not> hasClaimed (ledger bob_allocated_world) bob"
    by (simp add: scenario_defs)
  show "balances (tokens bob_allocated_world) campaign_addr = 150"
    by (simp add: scenario_defs)
  show "exec std_env (CallRescueRemainingTokens boss) bob_allocated_world
     = Inr (swept_world, [RemainingTokensRescued 150])"
    by (simp add: scenario_defs)
  show "ledger swept_world = ledger bob_allocated_world"
    by (simp add: scenario_defs)
  show "balances (tokens swept_world) boss = 150"
    by (simp add: scenario_defs)
  show "balances (tokens swept_world) campaign_addr = 0"
    by (simp add: scenario_defs)
  show "allocations (ledger swept_world) bob = 100"
    by (simp add: scenario_defs)
  show "\<not> hasClaimed (ledger swept_world) bob"
    by (simp add: scenario_defs)
  show "claimTokens std_env bob swept_world = Inl TokenCallFailed"
    by (simp add: scenario_defs)
qed

theorem rescueRemainingTokens_sums_listed_only_witness:
  "rescueRemainingTokens std_env boss bob_allocated_world
     = Inr (swept_world, [RemainingTokensRescued 150]) \<and>
   balanceOf std_env (this std_env) (tokens bob_allocated_world) = Some 150 \<and>
   sum_list (map (\<lambda>d. unat (allocations (ledger bob_allocated_world) d))
               (depositors (ledger bob_allocated_world))) = 0 \<and>
   unat (allocations (ledger bob_allocated_world) bob) = 100 \<and>
   ledger swept_world = ledger bob_allocated_world \<and>
   safeTransfer std_env (this std_env) (owner (ledger bob_allocated_world)) 150
       bob_allocated_world = Some ([], tokens swept_world)"
proof -
  note th = rescueRemainingTokens_sums_listed_only
    [of std_env boss bob_allocated_world swept_world "[RemainingTokensRescued 150]"]
  from th have r: "rescueRemainingTokens std_env boss bob_allocated_world
     = Inr (swept_world, [RemainingTokensRescued 150])"
    by simp
  with th obtain bal remaining sent evs1 where
    e: "[RemainingTokensRescued 150] = evs1 @ [RemainingTokensRescued remaining]" and
    tr: "safeTransfer std_env (this std_env) (owner (ledger bob_allocated_world)) remaining
           bob_allocated_world = Some sent" and
    tk: "tokens swept_world = snd sent"
    by blast
  from e have rem: "remaining = 150" by simp
  have "fst sent = []"
    using tr by (auto simp: std_env_def)
  then have s: "sent = ([], tokens swept_world)"
    using tk by (cases sent) simp
  have b: "balanceOf std_env (this std_env) (tokens bob_allocated_world) = Some 150"
    using th by (simp add: std_env_def)
  have z: "sum_list (map (\<lambda>d. unat (allocations (ledger bob_allocated_world) d))
               (depositors (ledger bob_allocated_world))) = 0 \<and>
     unat (allocations (ledger bob_allocated_world) bob) = 100"
    by (simp add: scenario_defs)
  have led: "ledger swept_world = ledger bob_allocated_world"
    using th by blast
  show ?thesis using r b z led tr rem s by simp
qed

subsection \<open>Failing calls\<close>

text \<open>
  C8. Every failure on a path of the contract is a revert of the whole call: a caller
  who is not the owner, a state in which the function is not legal, a wrong fee, a fee
  forwarding, a token pull or a token push that fails (also the one after the claim flag
  has been set, and any one of the refunds), a batch of allocations above
  \<open>totalDeposits\<close>, a claim without allocation or made before, no residual, nothing to
  withdraw. A call that reverts, with whatever error, leaves the contract's storage
  (deposits, allocations, claim flags, depositor list, \<open>totalDeposits\<close>, state, fee
  recipient), the token and the native balance exactly as they were before the call,
  and the rest of a run goes on from that state.
\<close>

theorem failing_calls_revert_everything:
  "(exec env c w = Inl e \<longrightarrow>
      step env (Call c) w = w \<and> run env (Call c # acts) w = run env acts w) \<and>
   (s \<noteq> owner (ledger w) \<longrightarrow>
      changeStateToLive s w = Inl OnlyOwner \<and> changeStateToRescue env s w = Inl OnlyOwner \<and>
      changeStateToEnded s w = Inl OnlyOwner \<and> setAllocations s users amounts w = Inl OnlyOwner \<and>
      rescueRemainingTokens env s w = Inl OnlyOwner \<and> updateFeeRecipient s r w = Inl OnlyOwner \<and>
      withdrawEther env s w = Inl OnlyOwner) \<and>
   (currentState (ledger w) = Rescue \<or> currentState (ledger w) = Ended \<longrightarrow>
      deposit env s v amount w = Inl DepositsNotAllowed) \<and>
   (s = owner (ledger w) \<and> currentState (ledger w) \<noteq> Graduating \<longrightarrow>
      changeStateToLive s w = Inl InvalidState \<and>
      changeStateToRescue env s w = Inl InvalidState) \<and>
   (s = owner (ledger w) \<and> currentState (ledger w) \<noteq> Live \<longrightarrow>
      changeStateToEnded s w = Inl InvalidState) \<and>
   (s = owner (ledger w) \<and> currentState (ledger w) \<noteq> Ended \<longrightarrow>
      setAllocations s users amounts w = Inl InvalidState \<and>
      rescueRemainingTokens env s w = Inl InvalidState) \<and>
   (currentState (ledger w) \<noteq> Ended \<longrightarrow> claimTokens env s w = Inl InvalidState) \<and>
   ((currentState (ledger w) = Graduating \<or> currentState (ledger w) = Live) \<and>
    v \<noteq> DEPOSIT_FEE \<longrightarrow>
      deposit env s v amount w = Inl IncorrectFee) \<and>
   ((currentState (ledger w) = Graduating \<or> currentState (ledger w) = Live) \<and>
    sendValue env (feeRecipient (ledger w)) DEPOSIT_FEE w = None \<longrightarrow>
      deposit env s DEPOSIT_FEE amount w = Inl FeeTransferFailed) \<and>
   ((currentState (ledger w) = Graduating \<or> currentState (ledger w) = Live) \<and>
    sendValue env (feeRecipient (ledger w)) DEPOSIT_FEE w = Some sent \<and>
    safeTransferFrom env (this env) s (this env) amount (fst (after_call sent w)) = None \<longrightarrow>
      deposit env s DEPOSIT_FEE amount w = Inl TokenCallFailed) \<and>
   (s = owner (ledger w) \<and> currentState (ledger w) = Graduating \<and>
    pay_refunds env (refunds_due (depositors (ledger w)) (deposits (ledger w))) w [] = None \<longrightarrow>
      changeStateToRescue env s w = Inl TokenCallFailed) \<and>
   (s = owner (ledger w) \<and> currentState (ledger w) = Ended \<and>
    length users \<noteq> length amounts \<longrightarrow>
      setAllocations s users amounts w = Inl MismatchedLengths) \<and>
   (s = owner (ledger w) \<and> currentState (ledger w) = Ended \<and> length users = length amounts \<and>
    unat (totalDeposits (ledger w)) < sum_list (map unat amounts) \<and>
    sum_list (map unat amounts) < 2 ^ 256 \<longrightarrow>
      setAllocations s users amounts w = Inl AllocationExceedsDeposits) \<and>
   (currentState (ledger w) = Ended \<and> allocations (ledger w) s = 0 \<longrightarrow>
      claimTokens env s w = Inl NoTokensAllocated) \<and>
   (currentState (ledger w) = Ended \<and> allocations (ledger w) s \<noteq> 0 \<and>
    hasClaimed (ledger w) s \<longrightarrow>
      claimTokens env s w = Inl AlreadyClaimed) \<and>
   (currentState (ledger w) = Ended \<and> allocations (ledger w) s \<noteq> 0 \<and>
    \<not> hasClaimed (ledger w) s \<and>
    safeTransfer env (this env) s (allocations (ledger w) s)
      (w\<lparr>ledger := (ledger w)\<lparr>hasClaimed := (hasClaimed (ledger w))(s := True)\<rparr>\<rparr>) = None \<longrightarrow>
      claimTokens env s w = Inl TokenCallFailed) \<and>
   (s = owner (ledger w) \<and> currentState (ledger w) = Ended \<and>
    allocated_loop (depositors (ledger w)) (allocations (ledger w)) 0 = Some acc \<and>
    balanceOf env (this env) (tokens w) = Some bal \<and> bal \<le> acc \<longrightarrow>
      rescueRemainingTokens env s w = Inl NoRemainingTokens) \<and>
   (s = owner (ledger w) \<and> currentState (ledger w) = Ended \<and>
    allocated_loop (depositors (ledger w)) (allocations (ledger w)) 0 = Some acc \<and>
    balanceOf env (this env) (tokens w) = Some bal \<and> acc < bal \<and>
    safeTransfer env (this env) (owner (ledger w)) (bal - acc) w = None \<longrightarrow>
      rescueRemainingTokens env s w = Inl TokenCallFailed) \<and>
   (s = owner (ledger w) \<and> r = 0 \<longrightarrow> updateFeeRecipient s r w = Inl InvalidFeeRecipient) \<and>
   (s = owner (ledger w) \<and> ether w = 0 \<longrightarrow> withdrawEther env s w = Inl NoEthToWithdraw) \<and>
   (s = owner (ledger w) \<and> ether w \<noteq> 0 \<and>
    sendValue env (owner (ledger w)) (ether w) (w\<lparr>ether := 0\<rparr>) = None \<longrightarrow>
      withdrawEther env s w = Inl WithdrawFailed)"
proof (intro conjI impI)
  show "step env (Call c) w = w" if "exec env c w = Inl e"
    using that by simp
  show "run env (Call c # acts) w = run env acts w" if "exec env c w = Inl e"
    using that by simp
  show "changeStateToLive s w = Inl OnlyOwner" if "s \<noteq> owner (ledger w)"
    using that by (simp add: changeStateToLive_def Let_def)
  show "changeStateToRescue env s w = Inl OnlyOwner" if "s \<noteq> owner (ledger w)"
    using that by (simp add: changeStateToRescue_def Let_def)
  show "changeStateToEnded s w = Inl OnlyOwner" if "s \<noteq> owner (ledger w)"
    using that by (simp add: changeStateToEnded_def Let_def)
  show "setAllocations s users amounts w = Inl OnlyOwner" if "s \<noteq> owner (ledger w)"
    using that by (simp add: setAllocations_def Let_def)
  show "rescueRemainingTokens env s w = Inl OnlyOwner" if "s \<noteq> owner (ledger w)"
    using that by (simp add: rescueRemainingTokens_def Let_def)
  show "updateFeeRecipient s r w = Inl OnlyOwner" if "s \<noteq> owner (ledger w)"
    using that by (simp add: updateFeeRecipient_def Let_def)
  show "withdrawEther env s w = Inl OnlyOwner" if "s \<noteq> owner (ledger w)"
    using that by (simp add: withdrawEther_def Let_def)
  show "deposit env s v amount w = Inl DepositsNotAllowed"
    if "currentState (ledger w) = Rescue \<or> currentState (ledger w) = Ended"
    using that by (auto simp: deposit_def Let_def)
  show "changeStateToLive s w = Inl InvalidState"
    if "s = owner (ledger w) \<and> currentState (ledger w) \<noteq> Graduating"
    using that by (simp add: changeStateToLive_def Let_def)
  show "changeStateToRescue env s w = Inl InvalidState"
    if "s = owner (ledger w) \<and> currentState (ledger w) \<noteq> Graduating"
    using that by (simp add: changeStateToRescue_def Let_def)
  show "changeStateToEnded s w = Inl InvalidState"
    if "s = owner (ledger w) \<and> currentState (ledger w) \<noteq> Live"
    using that by (simp add: changeStateToEnded_def Let_def)
  show "setAllocations s users amounts w = Inl InvalidState"
    if "s = owner (ledger w) \<and> currentState (ledger w) \<noteq> Ended"
    using that by (simp add: setAllocations_def Let_def)
  show "rescueRemainingTokens env s w = Inl InvalidState"
    if "s = owner (ledger w) \<and> currentState (ledger w) \<noteq> Ended"
    using that by (simp add: rescueRemainingTokens_def Let_def)
  show "claimTokens env s w = Inl InvalidState" if "currentState (ledger w) \<noteq> Ended"
    using that by (simp add: claimTokens_def Let_def)
  show "deposit env s v amount w = Inl IncorrectFee"
    if "(currentState (ledger w) = Graduating \<or> currentState (ledger w) = Live) \<and>
        v \<noteq> DEPOSIT_FEE"
    using that by (auto simp: deposit_def Let_def)
  show "deposit env s DEPOSIT_FEE amount w = Inl FeeTransferFailed"
    if "(currentState (ledger w) = Graduating \<or> currentState (ledger w) = Live) \<and>
        sendValue env (feeRecipient (ledger w)) DEPOSIT_FEE w = None"
    using that by (auto simp: deposit_def Let_def)
  show "deposit env s DEPOSIT_FEE amount w = Inl TokenCallFailed"
    if "(currentState (ledger w) = Graduating \<or> currentState (ledger w) = Live) \<and>
        sendValue env (feeRecipient (ledger w)) DEPOSIT_FEE w = Some sent \<and>
        safeTransferFrom env (this env) s (this env) amount (fst (after_call sent w)) = None"
    using that by (auto simp: deposit_def Let_def split: prod.splits)
  show "changeStateToRescue env s w = Inl TokenCallFailed"
    if "s = owner (ledger w) \<and> currentState (ledger w) = Graduating \<and>
        pay_refunds env (refunds_due (depositors (ledger w)) (deposits (ledger w))) w [] = None"
    using that by (simp add: changeStateToRescue_def Let_def refund_loop_pays)
  show "setAllocations s users amounts w = Inl MismatchedLengths"
    if "s = owner (ledger w) \<and> currentState (ledger w) = Ended \<and>
        length users \<noteq> length amounts"
    using that by (simp add: setAllocations_def Let_def)
  show "setAllocations s users amounts w = Inl AllocationExceedsDeposits"
    if h: "s = owner (ledger w) \<and> currentState (ledger w) = Ended \<and>
        length users = length amounts \<and>
        unat (totalDeposits (ledger w)) < sum_list (map unat amounts) \<and>
        sum_list (map unat amounts) < 2 ^ 256"
  proof -
    from h have fit: "unat (0::uint256) + sum_list (map unat (map snd (zip users amounts))) < 2 ^ 256"
      by simp
    from allocation_loop_fits [OF fit, of "allocations (ledger w)" "[]"] obtain allocs' acc' evs' where
      loop: "allocation_loop (zip users amounts) (allocations (ledger w)) 0 [] = Inr (allocs', acc', evs')"
      by (cases "allocation_loop (zip users amounts) (allocations (ledger w)) 0 []") auto
    from allocation_loop_total [OF loop] h
    have "unat (totalDeposits (ledger w)) < unat acc'" by simp
    then have "\<not> acc' \<le> totalDeposits (ledger w)" by (simp add: word_le_nat_alt)
    then show ?thesis using h loop by (simp add: setAllocations_def Let_def)
  qed
  show "claimTokens env s w = Inl NoTokensAllocated"
    if "currentState (ledger w) = Ended \<and> allocations (ledger w) s = 0"
    using that by (simp add: claimTokens_def Let_def)
  show "claimTokens env s w = Inl AlreadyClaimed"
    if "currentState (ledger w) = Ended \<and> allocations (ledger w) s \<noteq> 0 \<and>
        hasClaimed (ledger w) s"
    using that by (simp add: claimTokens_def Let_def word_greater_zero_iff)
  show "claimTokens env s w = Inl TokenCallFailed"
    if "currentState (ledger w) = Ended \<and> allocations (ledger w) s \<noteq> 0 \<and>
        \<not> hasClaimed (ledger w) s \<and>
        safeTransfer env (this env) s (allocations (ledger w) s)
          (w\<lparr>ledger := (ledger w)\<lparr>hasClaimed := (hasClaimed (ledger w))(s := True)\<rparr>\<rparr>) = None"
    using that by (simp add: claimTokens_def Let_def word_greater_zero_iff)
  show "rescueRemainingTokens env s w = Inl NoRemainingTokens"
    if "s = owner (ledger w) \<and> currentState (ledger w) = Ended \<and>
        allocated_loop (depositors (ledger w)) (allocations (ledger w)) 0 = Some acc \<and>
        balanceOf env (this env) (tokens w) = Some bal \<and> bal \<le> acc"
    using that by (simp add: rescueRemainingTokens_def Let_def not_less)
  show "rescueRemainingTokens env s w = Inl TokenCallFailed"
    if "s = owner (ledger w) \<and> currentState (ledger w) = Ended \<and>
        allocated_loop (depositors (ledger w)) (allocations (ledger w)) 0 = Some acc \<and>
        balanceOf env (this env) (tokens w) = Some bal \<and> acc < bal \<and>
        safeTransfer env (this env) (owner (ledger w)) (bal - acc) w = None"
  proof -
    from that have "bal - acc \<noteq> 0" by auto
    then have "0 < bal - acc" by (simp add: word_greater_zero_iff)
    then show ?thesis using that by (simp add: rescueRemainingTokens_def Let_def)
  qed
  show "updateFeeRecipient s r w = Inl InvalidFeeRecipient"
    if "s = owner (ledger w) \<and> r = 0"
    using that by (simp add: updateFeeRecipient_def Let_def)
  show "withdrawEther env s w = Inl NoEthToWithdraw"
    if "s = owner (ledger w) \<and> ether w = 0"
    using that by (simp add: withdrawEther_def Let_def)
  show "withdrawEther env s w = Inl WithdrawFailed"
    if "s = owner (ledger w) \<and> ether w \<noteq> 0 \<and>
        sendValue env (owner (ledger w)) (ether w) (w\<lparr>ether := 0\<rparr>) = None"
    using that by (simp add: withdrawEther_def Let_def word_greater_zero_iff)
qed

theorem failing_calls_revert_everything_witness:
  "exec std_env (CallSetAllocations boss [alice, bob] [100, 60]) allocated_world
     = Inl AllocationExceedsDeposits \<and>
   step std_env (Call (CallSetAllocations boss [alice, bob] [100, 60])) allocated_world
     = allocated_world \<and>
   allocations (ledger allocated_world) alice = 100 \<and>
   allocations (ledger allocated_world) bob = 40 \<and>
   safeTransfer std_env (this std_env) bob (allocations (ledger swept_world) bob)
     (swept_world\<lparr>ledger := (ledger swept_world)
        \<lparr>hasClaimed := (hasClaimed (ledger swept_world))(bob := True)\<rparr>\<rparr>) = None \<and>
   exec std_env (CallClaimTokens bob) swept_world = Inl TokenCallFailed \<and>
   step std_env (Call (CallClaimTokens bob)) swept_world = swept_world \<and>
   hasClaimed (ledger swept_world) bob = False \<and>
   exec std_env (CallDeposit alice 5 100) world0 = Inl IncorrectFee \<and>
   step std_env (Call (CallDeposit alice 5 100)) world0 = world0 \<and>
   changeStateToLive alice world0 = Inl OnlyOwner"
proof -
  have a: "boss = owner (ledger allocated_world) \<and> currentState (ledger allocated_world) = Ended \<and>
           totalDeposits (ledger allocated_world) = 150 \<and>
           allocations (ledger allocated_world) alice = 100 \<and>
           allocations (ledger allocated_world) bob = 40"
    by (simp add: scenario_defs)
  have 1: "exec std_env (CallSetAllocations boss [alice, bob] [100, 60]) allocated_world
     = Inl AllocationExceedsDeposits"
    using a failing_calls_revert_everything
      [of std_env _ allocated_world _ _ boss "[alice, bob]" "[100, 60]"]
    by simp
  have s: "currentState (ledger swept_world) = Ended \<and> allocations (ledger swept_world) bob \<noteq> 0 \<and>
           \<not> hasClaimed (ledger swept_world) bob"
    by (simp add: scenario_defs)
  have tr: "safeTransfer std_env (this std_env) bob (allocations (ledger swept_world) bob)
     (swept_world\<lparr>ledger := (ledger swept_world)
        \<lparr>hasClaimed := (hasClaimed (ledger swept_world))(bob := True)\<rparr>\<rparr>) = None"
    by (simp add: scenario_defs)
  have 2: "exec std_env (CallClaimTokens bob) swept_world = Inl TokenCallFailed"
    using s tr failing_calls_revert_everything [of std_env _ swept_world _ _ bob]
    by simp
  have z: "currentState (ledger world0) = Graduating \<and> (5 :: uint256) \<noteq> DEPOSIT_FEE \<and>
           alice \<noteq> owner (ledger world0)"
    by (simp add: scenario_defs)
  have 3: "exec std_env (CallDeposit alice 5 100) world0 = Inl IncorrectFee"
    using z failing_calls_revert_everything [of std_env _ world0 _ _ alice _ _ _ 5 100]
    by simp
  have 4: "changeStateToLive alice world0 = Inl OnlyOwner"
    using z failing_calls_revert_everything [of std_env _ world0 _ _ alice]
    by simp
  have r1: "step std_env (Call (CallSetAllocations boss [alice, bob] [100, 60])) allocated_world
              = allocated_world"
    using 1 failing_calls_revert_everything
      [of std_env "CallSetAllocations boss [alice, bob] [100, 60]" allocated_world
          AllocationExceedsDeposits]
    by blast
  have r2: "step std_env (Call (CallClaimTokens bob)) swept_world = swept_world"
    using 2 failing_calls_revert_everything
      [of std_env "CallClaimTokens bob" swept_world TokenCallFailed]
    by blast
  have r3: "step std_env (Call (CallDeposit alice 5 100)) world0 = world0"
    using 3 failing_calls_revert_everything
      [of std_env "CallDeposit alice 5 100" world0 IncorrectFee]
    by blast
  show ?thesis using a 1 r1 s tr 2 r2 3 r3 4 by simp
qed

end
